theory Spec2Isabelle
  imports Main "HOL-Library.Multiset"
begin

text \<open>
  The secrets module of cloudfox (\<^verbatim>\<open>aws/secrets.go\<close>): for every configured region
  a goroutine lists the secrets of Secrets Manager and the parameters of SSM
  page by page and sends one record per entry over a channel to a single
  receiver goroutine, which appends it to the module; the main goroutine waits
  for all of them, stops the progress spinner and the receiver, and reports.

  The per-region functions are given as functions from the remote side to what
  they request, log and send. The goroutines together are given as a machine
  whose steps are the statements of the source, taken in an order that is a
  parameter of every run; a property of the program is a property of all such
  orders. Line numbers refer to \<^verbatim>\<open>aws/secrets.go\<close>.
\<close>

section \<open>Data model of aws/secrets.go\<close>

text \<open>
  The struct \<^verbatim>\<open>Secret\<close> (lines 39-44). All four fields are Go strings.
\<close>

record Secret =
  AWSService :: string
  Region :: string
  Name :: string
  Description :: string

text \<open>
  Modelled from the spec: the declaration of \<^verbatim>\<open>console.CommandCounter\<close> is not in
  this file. The spec makes the progress counters integers; the fields are the
  five this file updates. Go's \<^verbatim>\<open>int\<close> is taken as an unbounded integer: every
  update below adds or subtracts one, a bounded number of times per region.
\<close>

record CommandCounter =
  Total :: int
  Pending :: int
  Complete :: int
  Error :: int
  Executing :: int

text \<open>
  The raw records of the two listing operations of the AWS SDK. Only the two
  pointer fields this file reads are kept; a nil pointer is \<open>None\<close>.
\<close>

datatype SecretListEntry =
  SecretListEntry (secretName: "string option") (secretDescription: "string option")

datatype ParameterMetadata =
  ParameterMetadata (parameterName: "string option") (parameterDescription: "string option")

datatype ListSecretsOutput =
  ListSecretsOutput (SecretList: "SecretListEntry list") (ListSecretsNextToken: "string option")

datatype DescribeParametersOutput =
  DescribeParametersOutput (Parameters: "ParameterMetadata list")
    (DescribeParametersNextToken: "string option")

text \<open>
  The two remote clients. A call takes the region (set through the options
  callback) and the \<^verbatim>\<open>NextToken\<close> of the request; it returns either an error
  (its message, \<open>Inl\<close>) or the page (\<open>Inr\<close>).
\<close>

type_synonym SecretsManagerClient = "string \<Rightarrow> string option \<Rightarrow> string + ListSecretsOutput"
type_synonym SSMClient = "string \<Rightarrow> string option \<Rightarrow> string + DescribeParametersOutput"

text \<open>\<^verbatim>\<open>aws.ToString\<close> of the SDK: the pointee, or the empty string for nil.\<close>

definition ToString :: "string option \<Rightarrow> string" where
  "ToString p = (case p of None \<Rightarrow> [] | Some s \<Rightarrow> s)"

section \<open>The per-source pagination loops\<close>

text \<open>
  What one call of a per-region function does that its caller can observe: the
  values it sends on \<^verbatim>\<open>dataReceiver\<close> (in order), the error messages it logs
  (each followed by one \<^verbatim>\<open>m.CommandCounter.Error++\<close>), and the tokens of the
  requests it makes (in order).
\<close>

record effects =
  sends :: "Secret list"
  errors :: "string list"
  calls :: "string option list"

definition no_effects :: effects where
  "no_effects = \<lparr>sends = [], errors = [], calls = []\<rparr>"

definition then_effects :: "effects \<Rightarrow> effects \<Rightarrow> effects" where
  "then_effects a b =
     \<lparr>sends = sends a @ sends b, errors = errors a @ errors b, calls = calls a @ calls b\<rparr>"

text \<open>Lines 212-223: the Secret built from one entry of \<^verbatim>\<open>ListSecrets.SecretList\<close>.\<close>

definition secretOfEntry :: "string \<Rightarrow> SecretListEntry \<Rightarrow> Secret" where
  "secretOfEntry r secret =
     (let name = ToString (secretName secret);
          description = (if secretDescription secret \<noteq> None
                         then ToString (secretDescription secret) else [])
      in \<lparr>AWSService = ''SecretsManager'', Region = r, Name = name, Description = description\<rparr>)"

text \<open>Lines 258-269: the Secret built from one entry of \<^verbatim>\<open>DescribeParameters.Parameters\<close>.\<close>

definition secretOfParameter :: "string \<Rightarrow> ParameterMetadata \<Rightarrow> Secret" where
  "secretOfParameter r parameter =
     (let name = ToString (parameterName parameter);
          description = (if parameterDescription parameter \<noteq> None
                         then ToString (parameterDescription parameter) else [])
      in \<lparr>AWSService = ''SSM'', Region = r, Name = name, Description = description\<rparr>)"

text \<open>
  Lines 195-234, the loop of \<^verbatim>\<open>getSecretsManagerSecretsPerRegion\<close>, from the
  iteration that requests the page at \<^verbatim>\<open>PaginationControl\<close>. The loop has no bound
  of its own: where it never ends the value is \<open>None\<close>.
\<close>

partial_function (option) listSecretsFrom ::
  "SecretsManagerClient \<Rightarrow> string \<Rightarrow> string option \<Rightarrow> effects option" where
  "listSecretsFrom client r PaginationControl =
     (case client r PaginationControl of
        Inl err \<Rightarrow> Some \<lparr>sends = [], errors = [err], calls = [PaginationControl]\<rparr>
      | Inr out \<Rightarrow>
          (case ListSecretsNextToken out of
             Some t \<Rightarrow>
               Option.bind (listSecretsFrom client r (Some t))
                 (\<lambda>rest. Some (then_effects
                    \<lparr>sends = map (secretOfEntry r) (SecretList out), errors = [],
                      calls = [PaginationControl]\<rparr> rest))
           | None \<Rightarrow>
               Some \<lparr>sends = map (secretOfEntry r) (SecretList out), errors = [],
                     calls = [PaginationControl]\<rparr>))"

definition getSecretsManagerSecretsPerRegion ::
  "SecretsManagerClient \<Rightarrow> string \<Rightarrow> effects option" where
  "getSecretsManagerSecretsPerRegion client r = listSecretsFrom client r None"

text \<open>Lines 241-280, the loop of \<^verbatim>\<open>getSSMParametersPerRegion\<close>.\<close>

partial_function (option) describeParametersFrom ::
  "SSMClient \<Rightarrow> string \<Rightarrow> string option \<Rightarrow> effects option" where
  "describeParametersFrom client r PaginationControl =
     (case client r PaginationControl of
        Inl err \<Rightarrow> Some \<lparr>sends = [], errors = [err], calls = [PaginationControl]\<rparr>
      | Inr out \<Rightarrow>
          (case DescribeParametersNextToken out of
             Some t \<Rightarrow>
               Option.bind (describeParametersFrom client r (Some t))
                 (\<lambda>rest. Some (then_effects
                    \<lparr>sends = map (secretOfParameter r) (Parameters out), errors = [],
                      calls = [PaginationControl]\<rparr> rest))
           | None \<Rightarrow>
               Some \<lparr>sends = map (secretOfParameter r) (Parameters out), errors = [],
                     calls = [PaginationControl]\<rparr>))"

definition getSSMParametersPerRegion :: "SSMClient \<Rightarrow> string \<Rightarrow> effects option" where
  "getSSMParametersPerRegion client r = describeParametersFrom client r None"


text \<open>
  Lines 143-144: the two per-region functions run one after the other; the
  second starts when the first has returned, whether by exhaustion or by error.
\<close>

definition seq_effects :: "effects option \<Rightarrow> effects option \<Rightarrow> effects option" where
  "seq_effects a b =
     Option.bind a (\<lambda>x. Option.bind b (\<lambda>y. Some (then_effects x y)))"

record apis =
  SecretsManagerClient :: SecretsManagerClient
  SSMClient :: SSMClient

definition executeChecks_effects :: "apis \<Rightarrow> string \<Rightarrow> effects option" where
  "executeChecks_effects api r =
     seq_effects (getSecretsManagerSecretsPerRegion (SecretsManagerClient api) r)
                 (getSSMParametersPerRegion (SSMClient api) r)"

section \<open>The module\<close>

text \<open>
  Modelled from the spec: \<^verbatim>\<open>utils.OutputData2\<close> is declared outside this file; it
  is the hand-over to the output stage, and its fields here are those this
  file assigns. Of \<^verbatim>\<open>sts.GetCallerIdentityOutput\<close> (AWS SDK) the two pointer fields
  this file reads are kept.
\<close>

record OutputData2 =
  Verbosity :: int
  Directory :: string
  CallingModule :: string
  Headers :: "string list"
  Body :: "string list list"
  FilePath :: string

record GetCallerIdentityOutput =
  Account :: "string option"
  UserId :: "string option"

text \<open>
  The struct \<^verbatim>\<open>SecretsModule\<close> (lines 20-37). The two clients are the \<open>apis\<close>
  above; \<open>outputData\<close> is the field \<^verbatim>\<open>output\<close>; \<open>modLog\<close> is the list of the messages given to \<^verbatim>\<open>m.modLog.Error\<close>,
  oldest first.
\<close>

record SecretsModule =
  Caller :: GetCallerIdentityOutput
  AWSRegions :: "string list"
  AWSProfile :: string
  Secrets :: "Secret list"
  CommandCounter :: CommandCounter
  outputData :: OutputData2
  modLog :: "string list"

section \<open>The concurrent phase of PrintSecrets (lines 61-87)\<close>

subsection \<open>One goroutine running executeChecks\<close>

text \<open>
  Program points of \<^verbatim>\<open>executeChecks\<close> (lines 138-147) with the bodies of the two
  per-region functions in place of their calls. \<^verbatim>\<open>x++\<close> on a shared field is a
  read of the field followed by a write of the value read plus one; nothing in
  the source makes the pair indivisible, so each half is a step of its own and
  the value read is kept in the program point between the two.
\<close>

datatype wpc =
    W_TotalLoad | W_TotalStore int
  | W_PendingLoad | W_PendingStore int
  | W_ExecutingIncLoad | W_ExecutingIncStore int
  | W_ListSecrets "string option"
  | W_SecretsLogError string
  | W_SecretsErrorLoad | W_SecretsErrorStore int
  | W_SecretsSend "SecretListEntry list" "string option"
  | W_DescribeParameters "string option"
  | W_ParametersLogError string
  | W_ParametersErrorLoad | W_ParametersErrorStore int
  | W_ParametersSend "ParameterMetadata list" "string option"
  | W_ExecutingDecLoad | W_ExecutingDecStore int
  | W_CompleteLoad | W_CompleteStore int
  | W_Done
  | W_Exit

datatype field = FTotal | FPending | FComplete | FError | FExecuting

fun put :: "field \<Rightarrow> int \<Rightarrow> CommandCounter \<Rightarrow> CommandCounter" where
  "put FTotal v c = c\<lparr>Total := v\<rparr>"
| "put FPending v c = c\<lparr>Pending := v\<rparr>"
| "put FComplete v c = c\<lparr>Complete := v\<rparr>"
| "put FError v c = c\<lparr>Error := v\<rparr>"
| "put FExecuting v c = c\<lparr>Executing := v\<rparr>"

text \<open>What a step of a goroutine does outside its own locals.\<close>

datatype action =
    Internal
  | Write field int
  | Request "string option"
  | LogError string
  | Send Secret
  | WaitGroupDone

text \<open>
  One step of \<^verbatim>\<open>executeChecks\<close> in region \<open>r\<close>, reading the counters as they are
  now: the action and the next program point. \<open>None\<close>: the goroutine has ended.
\<close>

fun executeChecks_step ::
  "apis \<Rightarrow> CommandCounter \<Rightarrow> string \<Rightarrow> wpc \<Rightarrow> (action \<times> wpc) option" where
  \<comment> \<open>line 140\<close>
  "executeChecks_step api c r W_TotalLoad = Some (Internal, W_TotalStore (Total c))"
| "executeChecks_step api c r (W_TotalStore v) = Some (Write FTotal (v + 1), W_PendingLoad)"
  \<comment> \<open>line 141\<close>
| "executeChecks_step api c r W_PendingLoad = Some (Internal, W_PendingStore (Pending c))"
| "executeChecks_step api c r (W_PendingStore v) =
     Some (Write FPending (v - 1), W_ExecutingIncLoad)"
  \<comment> \<open>line 142\<close>
| "executeChecks_step api c r W_ExecutingIncLoad =
     Some (Internal, W_ExecutingIncStore (Executing c))"
| "executeChecks_step api c r (W_ExecutingIncStore v) =
     Some (Write FExecuting (v + 1), W_ListSecrets None)"
  \<comment> \<open>lines 196-209\<close>
| "executeChecks_step api c r (W_ListSecrets PaginationControl) =
     (case SecretsManagerClient api r PaginationControl of
        Inl err \<Rightarrow> Some (Request PaginationControl, W_SecretsLogError err)
      | Inr out \<Rightarrow>
          Some (Request PaginationControl,
                W_SecretsSend (SecretList out) (ListSecretsNextToken out)))"
| "executeChecks_step api c r (W_SecretsLogError err) = Some (LogError err, W_SecretsErrorLoad)"
| "executeChecks_step api c r W_SecretsErrorLoad = Some (Internal, W_SecretsErrorStore (Error c))"
| "executeChecks_step api c r (W_SecretsErrorStore v) =
     Some (Write FError (v + 1), W_DescribeParameters None)"
  \<comment> \<open>lines 211-225\<close>
| "executeChecks_step api c r (W_SecretsSend (secret # rest) NextToken) =
     Some (Send (secretOfEntry r secret), W_SecretsSend rest NextToken)"
  \<comment> \<open>lines 228-233\<close>
| "executeChecks_step api c r (W_SecretsSend [] NextToken) =
     (if NextToken \<noteq> None then Some (Internal, W_ListSecrets NextToken)
      else Some (Internal, W_DescribeParameters None))"
  \<comment> \<open>lines 242-255\<close>
| "executeChecks_step api c r (W_DescribeParameters PaginationControl) =
     (case SSMClient api r PaginationControl of
        Inl err \<Rightarrow> Some (Request PaginationControl, W_ParametersLogError err)
      | Inr out \<Rightarrow>
          Some (Request PaginationControl,
                W_ParametersSend (Parameters out) (DescribeParametersNextToken out)))"
| "executeChecks_step api c r (W_ParametersLogError err) =
     Some (LogError err, W_ParametersErrorLoad)"
| "executeChecks_step api c r W_ParametersErrorLoad =
     Some (Internal, W_ParametersErrorStore (Error c))"
| "executeChecks_step api c r (W_ParametersErrorStore v) =
     Some (Write FError (v + 1), W_ExecutingDecLoad)"
  \<comment> \<open>lines 257-271\<close>
| "executeChecks_step api c r (W_ParametersSend (parameter # rest) NextToken) =
     Some (Send (secretOfParameter r parameter), W_ParametersSend rest NextToken)"
  \<comment> \<open>lines 274-279\<close>
| "executeChecks_step api c r (W_ParametersSend [] NextToken) =
     (if NextToken \<noteq> None then Some (Internal, W_DescribeParameters NextToken)
      else Some (Internal, W_ExecutingDecLoad))"
  \<comment> \<open>line 145\<close>
| "executeChecks_step api c r W_ExecutingDecLoad =
     Some (Internal, W_ExecutingDecStore (Executing c))"
| "executeChecks_step api c r (W_ExecutingDecStore v) =
     Some (Write FExecuting (v - 1), W_CompleteLoad)"
  \<comment> \<open>line 146\<close>
| "executeChecks_step api c r W_CompleteLoad = Some (Internal, W_CompleteStore (Complete c))"
| "executeChecks_step api c r (W_CompleteStore v) = Some (Write FComplete (v + 1), W_Done)"
  \<comment> \<open>line 139, deferred\<close>
| "executeChecks_step api c r W_Done = Some (WaitGroupDone, W_Exit)"
| "executeChecks_step api c r W_Exit = None"

subsection \<open>The goroutines together\<close>

text \<open>
  A launched goroutine: its region argument, its program point, and four
  histories: its requests, log entries and sends; the counter fields it has
  written; and the raw records the remote side has returned to it from each of
  the two sources; all oldest first. The histories are not in the source; no
  step reads them.
\<close>

record worker =
  region :: string
  pc :: wpc
  history :: effects
  stores :: "field list"
  listed :: "SecretListEntry list"
  described :: "ParameterMetadata list"

text \<open>
  \<^verbatim>\<open>Receiver\<close> (lines 125-136): at the select; holding a value received on
  \<^verbatim>\<open>receiver\<close> and not yet appended (line 130); having received the stop signal
  and not yet answered (line 132); returned, its channel closed.
\<close>

datatype rpc = R_Select | R_Append Secret | R_Ack | R_Closed

text \<open>
  Modelled from the spec: \<^verbatim>\<open>console.SpinUntil\<close> is not in this file. It only
  reads the counters, until it receives the stop signal on \<^verbatim>\<open>spinnerDone\<close>, which
  it answers on the same channel before it ends.
\<close>

datatype spc = S_Spinning | S_Ack | S_Stopped

text \<open>
  Program points of PrintSecrets between lines 75 and 89. \<open>M_Range rs\<close> is the
  head of the loop with \<open>rs\<close> still to range over; the three points that follow
  carry the current region as well.
\<close>

datatype mpc =
    M_Range "string list"
  | M_PendingLoad string "string list"
  | M_PendingStore string "string list" int
  | M_Go string "string list"
  | M_Wait
  | M_SpinnerStop
  | M_SpinnerAck
  | M_ReceiverStop
  | M_ReceiverAck
  | M_Joined

record state =
  module :: SecretsModule
  wg :: int
  mainpc :: mpc
  workers :: "worker list"
  receiver :: rpc
  spinner :: spc

definition set_counter :: "CommandCounter \<Rightarrow> state \<Rightarrow> state" where
  "set_counter c s = s\<lparr>module := (module s)\<lparr>CommandCounter := c\<rparr>\<rparr>"

definition counter :: "state \<Rightarrow> CommandCounter" where
  "counter s = CommandCounter (module s)"

text \<open>
  A step of PrintSecrets itself. Both channels are unbuffered: a send and the
  matching receive are one step, taken when both sides are at it. \<open>None\<close>: main
  cannot move now.
\<close>

fun main_step :: "state \<Rightarrow> state option" where
  "main_step s =
     (case mainpc s of
        M_Range [] \<Rightarrow> Some (s\<lparr>mainpc := M_Wait\<rparr>)
      | M_Range (r # rs) \<Rightarrow> Some (s\<lparr>wg := wg s + 1, mainpc := M_PendingLoad r rs\<rparr>)
      | M_PendingLoad r rs \<Rightarrow> Some (s\<lparr>mainpc := M_PendingStore r rs (Pending (counter s))\<rparr>)
      | M_PendingStore r rs v \<Rightarrow>
          Some ((set_counter (put FPending (v + 1) (counter s)) s)\<lparr>mainpc := M_Go r rs\<rparr>)
      | M_Go r rs \<Rightarrow>
          Some (s\<lparr>workers := workers s @
                    [\<lparr>region = r, pc = W_TotalLoad, history = no_effects, stores = [],
                      listed = [], described = []\<rparr>],
                  mainpc := M_Range rs\<rparr>)
      | M_Wait \<Rightarrow> if wg s = 0 then Some (s\<lparr>mainpc := M_SpinnerStop\<rparr>) else None
      | M_SpinnerStop \<Rightarrow>
          if spinner s = S_Spinning then Some (s\<lparr>spinner := S_Ack, mainpc := M_SpinnerAck\<rparr>)
          else None
      | M_SpinnerAck \<Rightarrow>
          if spinner s = S_Ack then Some (s\<lparr>spinner := S_Stopped, mainpc := M_ReceiverStop\<rparr>)
          else None
      | M_ReceiverStop \<Rightarrow>
          if receiver s = R_Select then Some (s\<lparr>receiver := R_Ack, mainpc := M_ReceiverAck\<rparr>)
          else None
      | M_ReceiverAck \<Rightarrow>
          if receiver s = R_Ack then Some (s\<lparr>receiver := R_Closed, mainpc := M_Joined\<rparr>)
          else None
      | M_Joined \<Rightarrow> None)"

text \<open>Line 130, the one step \<^verbatim>\<open>Receiver\<close> takes by itself.\<close>

fun receiver_step :: "state \<Rightarrow> state option" where
  "receiver_step s =
     (case receiver s of
        R_Append data \<Rightarrow>
          Some (s\<lparr>module := (module s)\<lparr>Secrets := Secrets (module s) @ [data]\<rparr>,
                  receiver := R_Select\<rparr>)
      | _ \<Rightarrow> None)"

text \<open>The effect of a goroutine's action on the shared state.\<close>

fun perform :: "action \<Rightarrow> state \<Rightarrow> state option" where
  "perform Internal s = Some s"
| "perform (Write f v) s = Some (set_counter (put f v (counter s)) s)"
| "perform (Request tok) s = Some s"
| "perform (LogError err) s = Some (s\<lparr>module := (module s)\<lparr>modLog := modLog (module s) @ [err]\<rparr>\<rparr>)"
| "perform (Send data) s =
     (if receiver s = R_Select then Some (s\<lparr>receiver := R_Append data\<rparr>) else None)"
| "perform WaitGroupDone s = Some (s\<lparr>wg := wg s - 1\<rparr>)"

fun record_action :: "action \<Rightarrow> effects \<Rightarrow> effects" where
  "record_action (Request tok) h = h\<lparr>calls := calls h @ [tok]\<rparr>"
| "record_action (LogError err) h = h\<lparr>errors := errors h @ [err]\<rparr>"
| "record_action (Send data) h = h\<lparr>sends := sends h @ [data]\<rparr>"
| "record_action _ h = h"

fun record_store :: "action \<Rightarrow> field list \<Rightarrow> field list" where
  "record_store (Write f v) fs = fs @ [f]"
| "record_store _ fs = fs"

text \<open>
  The raw records the remote side returns to the request a goroutine in region
  \<open>r\<close> makes at a program point: those of the page if the request succeeds, none
  if it fails, and none where no request is made.
\<close>

fun listedAt :: "apis \<Rightarrow> string \<Rightarrow> wpc \<Rightarrow> SecretListEntry list" where
  "listedAt api r (W_ListSecrets tok) =
     (case SecretsManagerClient api r tok of Inl err \<Rightarrow> [] | Inr out \<Rightarrow> SecretList out)"
| "listedAt api r _ = []"

fun describedAt :: "apis \<Rightarrow> string \<Rightarrow> wpc \<Rightarrow> ParameterMetadata list" where
  "describedAt api r (W_DescribeParameters tok) =
     (case SSMClient api r tok of Inl err \<Rightarrow> [] | Inr out \<Rightarrow> Parameters out)"
| "describedAt api r _ = []"

definition worker_step :: "apis \<Rightarrow> nat \<Rightarrow> state \<Rightarrow> state option" where
  "worker_step api i s =
     (if i < length (workers s) then
        (let w = workers s ! i in
         case executeChecks_step api (counter s) (region w) (pc w) of
           None \<Rightarrow> None
         | Some (a, pc') \<Rightarrow>
             (case perform a s of
                None \<Rightarrow> None
              | Some s' \<Rightarrow>
                  Some (s'\<lparr>workers :=
                    (workers s')[i := w\<lparr>pc := pc', history := record_action a (history w),
                      stores := record_store a (stores w),
                      listed := listed w @ listedAt api (region w) (pc w),
                      described := described w @ describedAt api (region w) (pc w)\<rparr>]\<rparr>)))
      else None)"

text \<open>
  Which goroutine moves next is not the program's choice: a run is a list of
  such choices. \<open>Worker i\<close> is the goroutine of the \<open>i\<close>-th region.
\<close>

datatype thread = MainThread | Worker nat | ReceiverThread

fun step :: "apis \<Rightarrow> state \<Rightarrow> thread \<Rightarrow> state option" where
  "step api s MainThread = main_step s"
| "step api s (Worker i) = worker_step api i s"
| "step api s ReceiverThread = receiver_step s"

fun exec :: "apis \<Rightarrow> state \<Rightarrow> thread list \<Rightarrow> state option" where
  "exec api s [] = Some s"
| "exec api s (t # ts) = (case step api s t of None \<Rightarrow> None | Some s' \<Rightarrow> exec api s' ts)"

text \<open>
  The state at line 75: the spinner and the receiver have been started (lines
  66 and 73), no worker yet.
\<close>

definition start :: "SecretsModule \<Rightarrow> state" where
  "start m =
     \<lparr>module = m, wg = 0, mainpc = M_Range (AWSRegions m), workers = [],
      receiver = R_Select, spinner = S_Spinning\<rparr>"

section \<open>PrintSecrets before and after the concurrent phase\<close>

text \<open>
  What this file takes from its surroundings: the colour helpers of the
  package, \<^verbatim>\<open>filepath.Join\<close>, and the outcome of the two file-system calls
  (\<open>Some\<close> the error message, \<open>None\<close> for success).
\<close>

record env =
  cyan :: "string \<Rightarrow> string"
  green :: "string \<Rightarrow> string"
  Join :: "string list \<Rightarrow> string"
  MkdirAll :: "string \<Rightarrow> string option"
  WriteFile :: "string \<Rightarrow> string \<Rightarrow> string option"

text \<open>\<^verbatim>\<open>strconv.Itoa\<close> on a length: the decimal digits, most significant first.\<close>

definition digit :: "nat \<Rightarrow> char" where
  "digit d = char_of (48 + d)"

fun Itoa :: "nat \<Rightarrow> string" where
  "Itoa n = (if n < 10 then [digit n] else Itoa (n div 10) @ [digit (n mod 10)])"

declare Itoa.simps [simp del]

text \<open>Lines 48-59. The second component is what is printed, in order.\<close>

definition PrintSecrets_begin ::
  "env \<Rightarrow> string \<Rightarrow> int \<Rightarrow> SecretsModule \<Rightarrow> SecretsModule \<times> string list" where
  "PrintSecrets_begin e outputDirectory verbosity m =
     (let m1 = m\<lparr>outputData := (outputData m)\<lparr>Verbosity := verbosity,
                   Directory := outputDirectory, CallingModule := ''secrets''\<rparr>\<rparr>;
          m2 = (if AWSProfile m1 = []
                then m1\<lparr>AWSProfile :=
                       ToString (Account (Caller m1)) @ ''-'' @ ToString (UserId (Caller m1))\<rparr>
                else m1)
      in (m2,
          [''['' @ cyan e (CallingModule (outputData m2)) @ ''] Enumerating secrets for account ''
             @ ToString (Account (Caller m2)) @ ''.\<newline>'',
           ''['' @ cyan e (CallingModule (outputData m2))
             @ ''] Supported Services: SecretsManager, SSM Parameters\<newline>'']))"

text \<open>Lines 159-164 of \<^verbatim>\<open>writeLoot\<close>: \<^verbatim>\<open>Sprintln\<close> ends each line with a newline.\<close>

definition lootHeader :: string where
  "lootHeader =
     ''#############################################\<newline>'' @
     ''# The profile you will use to perform these commands is most likely not the profile you used to run CloudFox\<newline>'' @
     ''# Set the $profile environment variable to the profile you are going to use to pull the secrets/parameters.\<newline>'' @
     ''# E.g., export profile=dev-prod.\<newline>'' @
     ''#############################################\<newline>'' @
     ''\<newline>''"

text \<open>Lines 167-172: the body of the loop over \<^verbatim>\<open>m.Secrets\<close>.\<close>

definition lootAppend :: "string \<Rightarrow> Secret \<Rightarrow> string" where
  "lootAppend out secret =
     (let out1 = (if AWSService secret = ''SecretsManager''
                  then out @ ''aws --profile $profile --region '' @ Region secret
                         @ '' secretsmanager get-secret-value --secret-id '' @ Name secret
                         @ ''\<newline>''
                  else out)
      in if AWSService secret = ''SSM''
         then out1 @ ''aws --profile $profile --region '' @ Region secret
                @ '' ssm get-parameter --with-decryption --name '' @ Name secret @ ''\<newline>''
         else out1)"

definition lootCommands :: "Secret list \<Rightarrow> string" where
  "lootCommands secrets = foldl lootAppend lootHeader secrets"

definition logError :: "string \<Rightarrow> SecretsModule \<Rightarrow> SecretsModule" where
  "logError err m =
     m\<lparr>modLog := modLog m @ [err],
       CommandCounter := (CommandCounter m)\<lparr>Error := Error (CommandCounter m) + 1\<rparr>\<rparr>"

text \<open>
  \<^verbatim>\<open>writeLoot\<close> (lines 149-190): the module afterwards, what is printed, and the
  file given to \<^verbatim>\<open>os.WriteFile\<close> (its path and its content).
\<close>

definition writeLoot ::
  "env \<Rightarrow> string \<Rightarrow> int \<Rightarrow> SecretsModule \<Rightarrow> SecretsModule \<times> string list \<times> (string \<times> string)" where
  "writeLoot e outputDirectory verbosity m =
     (let path = Join e [outputDirectory, ''cloudfox-output'', ''aws'', AWSProfile m, ''loot''];
          m1 = (case MkdirAll e path of Some err \<Rightarrow> logError err m | None \<Rightarrow> m);
          pullFile = Join e [path, ''pull-secrets-commands.txt''];
          out = lootCommands (Secrets m1);
          m2 = (case WriteFile e pullFile out of Some err \<Rightarrow> logError err m1 | None \<Rightarrow> m1);
          tag = ''['' @ cyan e (CallingModule (outputData m2)) @ ''] '';
          shown = (if verbosity > 2
                   then [''\<newline>'',
                         tag @ green e ''Use the commands below to retrieve the secrets that look interesting''
                           @ '' \<newline>\<newline>'',
                         out,
                         tag @ green e ''End of loot file.'' @ '' \<newline>\<newline>'']
                   else [])
      in (m2, shown @ [tag @ ''Loot written to ['' @ pullFile @ '']\<newline>''], (pullFile, out)))"

text \<open>Lines 102-107: one row of the table.\<close>

definition tableRow :: "Secret \<Rightarrow> string list" where
  "tableRow secret = [AWSService secret, Region secret, Name secret, Description secret]"

text \<open>
  Lines 91-121: the module afterwards, what this file prints, and the loot
  file if there is one. \<^verbatim>\<open>utils.OutputSelector\<close> renders the table elsewhere
  and changes nothing here.
\<close>

definition PrintSecrets_end ::
  "env \<Rightarrow> string \<Rightarrow> string \<Rightarrow> int \<Rightarrow> SecretsModule
     \<Rightarrow> SecretsModule \<times> string list \<times> (string \<times> string) option" where
  "PrintSecrets_end e outputFormat outputDirectory verbosity m =
     (let m1 = m\<lparr>outputData := (outputData m)\<lparr>Headers :=
                   [''Service'', ''Region'', ''Name'', ''Description'']\<rparr>\<rparr>;
          m2 = m1\<lparr>outputData := (outputData m1)\<lparr>Body :=
                   Body (outputData m1) @ map tableRow (Secrets m1)\<rparr>\<rparr>
      in if length (Body (outputData m2)) > 0
         then (let m3 = m2\<lparr>outputData := (outputData m2)\<lparr>FilePath :=
                          Join e [outputDirectory, ''cloudfox-output'', ''aws'', AWSProfile m2]\<rparr>\<rparr>;
                   (m4, shown, file) = writeLoot e outputDirectory verbosity m3
               in (m4,
                   shown @ [''['' @ cyan e (CallingModule (outputData m4)) @ ''] ''
                              @ Itoa (length (Body (outputData m4))) @ '' secrets found.\<newline>''],
                   Some file))
         else (m2,
               [''['' @ cyan e (CallingModule (outputData m2))
                  @ ''] No secrets found, skipping the creation of an output file.\<newline>''],
               None))"

text \<open>
  PrintSecrets as a whole, for one order of the goroutines' steps. \<open>None\<close>: that
  order is not one the program can follow to line 89.
\<close>

definition PrintSecrets ::
  "env \<Rightarrow> apis \<Rightarrow> thread list \<Rightarrow> string \<Rightarrow> string \<Rightarrow> int \<Rightarrow> SecretsModule
     \<Rightarrow> (SecretsModule \<times> string list \<times> (string \<times> string) option) option" where
  "PrintSecrets e api schedule outputFormat outputDirectory verbosity m =
     (let (m1, shown1) = PrintSecrets_begin e outputDirectory verbosity m
      in case exec api (start m1) schedule of
           None \<Rightarrow> None
         | Some s \<Rightarrow>
             if mainpc s = M_Joined
             then (let (m2, shown2, file) =
                         PrintSecrets_end e outputFormat outputDirectory verbosity (module s)
                   in Some (m2, shown1 @ shown2, file))
             else None)"

section \<open>Notions used to state the properties\<close>

text \<open>The regions main has not yet started a goroutine for.\<close>

fun todo :: "mpc \<Rightarrow> string list" where
  "todo (M_Range rs) = rs"
| "todo (M_PendingLoad r rs) = r # rs"
| "todo (M_PendingStore r rs v) = r # rs"
| "todo (M_Go r rs) = r # rs"
| "todo _ = []"

text \<open>One where main has called \<^verbatim>\<open>wg.Add(1)\<close> for a goroutine it has not yet started.\<close>

fun launching :: "mpc \<Rightarrow> int" where
  "launching (M_PendingLoad r rs) = 1"
| "launching (M_PendingStore r rs v) = 1"
| "launching (M_Go r rs) = 1"
| "launching _ = 0"

text \<open>Main is beyond \<^verbatim>\<open>wg.Wait()\<close> (line 81).\<close>

fun past_wait :: "mpc \<Rightarrow> bool" where
  "past_wait M_SpinnerStop = True"
| "past_wait M_SpinnerAck = True"
| "past_wait M_ReceiverStop = True"
| "past_wait M_ReceiverAck = True"
| "past_wait M_Joined = True"
| "past_wait _ = False"

text \<open>One for a goroutine that has not yet called \<^verbatim>\<open>wg.Done()\<close>.\<close>

definition live :: "worker \<Rightarrow> int" where
  "live w = (if pc w = W_Exit then 0 else 1)"

text \<open>The value \<^verbatim>\<open>Receiver\<close> has taken from the channel and not yet appended.\<close>

fun held :: "rpc \<Rightarrow> Secret multiset" where
  "held (R_Append data) = {#data#}"
| "held _ = {#}"

text \<open>Everything the goroutines have sent on \<^verbatim>\<open>dataReceiver\<close> so far.\<close>

definition submitted :: "state \<Rightarrow> Secret multiset" where
  "submitted s = (\<Sum>w\<leftarrow>workers s. mset (sends (history w)))"

text \<open>
  How the goroutines stand to each other in every run: a goroutine per region
  ranged over, in order; the WaitGroup counts the goroutines that have not
  ended; main gets beyond \<^verbatim>\<open>wg.Wait()\<close> only with the count at zero; the receiver
  answers the stop signal exactly when main waits for the answer.
\<close>

definition structure_inv :: "SecretsModule \<Rightarrow> state \<Rightarrow> bool" where
  "structure_inv m s \<longleftrightarrow>
     map region (workers s) @ todo (mainpc s) = AWSRegions m \<and>
     wg s = (\<Sum>w\<leftarrow>workers s. live w) + launching (mainpc s) \<and>
     (past_wait (mainpc s) \<longrightarrow> wg s = 0) \<and>
     (receiver s = R_Ack \<longleftrightarrow> mainpc s = M_ReceiverAck) \<and>
     (receiver s = R_Closed \<longleftrightarrow> mainpc s = M_Joined)"

text \<open>Nothing sent is lost or doubled on its way into \<^verbatim>\<open>m.Secrets\<close>.\<close>

definition items_inv :: "SecretsModule \<Rightarrow> state \<Rightarrow> bool" where
  "items_inv m s \<longleftrightarrow>
     mset (Secrets (module s)) + held (receiver s) = mset (Secrets m) + submitted s"

text \<open>
  What a goroutine in region \<open>r\<close> at program point \<open>p\<close> still has to request,
  log and send before it ends, according to the two loops above.
\<close>

fun remaining :: "apis \<Rightarrow> string \<Rightarrow> wpc \<Rightarrow> effects option" where
  "remaining api r (W_ListSecrets tok) =
     seq_effects (listSecretsFrom (SecretsManagerClient api) r tok)
       (getSSMParametersPerRegion (SSMClient api) r)"
| "remaining api r (W_SecretsLogError err) =
     seq_effects (Some \<lparr>sends = [], errors = [err], calls = []\<rparr>)
       (getSSMParametersPerRegion (SSMClient api) r)"
| "remaining api r W_SecretsErrorLoad = getSSMParametersPerRegion (SSMClient api) r"
| "remaining api r (W_SecretsErrorStore v) = getSSMParametersPerRegion (SSMClient api) r"
| "remaining api r (W_SecretsSend entries tok) =
     seq_effects
       (seq_effects (Some \<lparr>sends = map (secretOfEntry r) entries, errors = [], calls = []\<rparr>)
          (case tok of None \<Rightarrow> Some no_effects
           | Some t \<Rightarrow> listSecretsFrom (SecretsManagerClient api) r (Some t)))
       (getSSMParametersPerRegion (SSMClient api) r)"
| "remaining api r (W_DescribeParameters tok) = describeParametersFrom (SSMClient api) r tok"
| "remaining api r (W_ParametersLogError err) = Some \<lparr>sends = [], errors = [err], calls = []\<rparr>"
| "remaining api r (W_ParametersSend entries tok) =
     seq_effects (Some \<lparr>sends = map (secretOfParameter r) entries, errors = [], calls = []\<rparr>)
       (case tok of None \<Rightarrow> Some no_effects
        | Some t \<Rightarrow> describeParametersFrom (SSMClient api) r (Some t))"
| "remaining api r W_TotalLoad = executeChecks_effects api r"
| "remaining api r (W_TotalStore v) = executeChecks_effects api r"
| "remaining api r W_PendingLoad = executeChecks_effects api r"
| "remaining api r (W_PendingStore v) = executeChecks_effects api r"
| "remaining api r W_ExecutingIncLoad = executeChecks_effects api r"
| "remaining api r (W_ExecutingIncStore v) = executeChecks_effects api r"
| "remaining api r _ = Some no_effects"

text \<open>
  What a goroutine has done so far, followed by what it still has to do, is
  what \<^verbatim>\<open>executeChecks\<close> does in its region.
\<close>

definition on_course :: "apis \<Rightarrow> worker \<Rightarrow> bool" where
  "on_course api w \<longleftrightarrow>
     seq_effects (Some (history w)) (remaining api (region w) (pc w))
       = executeChecks_effects api (region w)"

text \<open>
  The counter fields a goroutine has written when it is at a program point,
  and the number of errors it has logged there.
\<close>

definition entered :: "field list" where
  "entered = [FTotal, FPending, FExecuting]"

fun in_order :: "wpc \<Rightarrow> field list \<Rightarrow> nat \<Rightarrow> bool" where
  "in_order W_TotalLoad fs n = (fs = [] \<and> n = 0)"
| "in_order (W_TotalStore v) fs n = (fs = [] \<and> n = 0)"
| "in_order W_PendingLoad fs n = (fs = [FTotal] \<and> n = 0)"
| "in_order (W_PendingStore v) fs n = (fs = [FTotal] \<and> n = 0)"
| "in_order W_ExecutingIncLoad fs n = (fs = [FTotal, FPending] \<and> n = 0)"
| "in_order (W_ExecutingIncStore v) fs n = (fs = [FTotal, FPending] \<and> n = 0)"
| "in_order (W_ListSecrets tok) fs n = (fs = entered \<and> n = 0)"
| "in_order (W_SecretsLogError err) fs n = (fs = entered \<and> n = 0)"
| "in_order W_SecretsErrorLoad fs n = (fs = entered \<and> n = 1)"
| "in_order (W_SecretsErrorStore v) fs n = (fs = entered \<and> n = 1)"
| "in_order (W_SecretsSend entries tok) fs n = (fs = entered \<and> n = 0)"
| "in_order (W_DescribeParameters tok) fs n = (fs = entered @ replicate n FError)"
| "in_order (W_ParametersLogError err) fs n = (fs = entered @ replicate n FError)"
| "in_order W_ParametersErrorLoad fs n = (n \<noteq> 0 \<and> fs = entered @ replicate (n - 1) FError)"
| "in_order (W_ParametersErrorStore v) fs n =
     (n \<noteq> 0 \<and> fs = entered @ replicate (n - 1) FError)"
| "in_order (W_ParametersSend entries tok) fs n = (fs = entered @ replicate n FError)"
| "in_order W_ExecutingDecLoad fs n = (fs = entered @ replicate n FError)"
| "in_order (W_ExecutingDecStore v) fs n = (fs = entered @ replicate n FError)"
| "in_order W_CompleteLoad fs n = (fs = entered @ replicate n FError @ [FExecuting])"
| "in_order (W_CompleteStore v) fs n = (fs = entered @ replicate n FError @ [FExecuting])"
| "in_order W_Done fs n = (fs = entered @ replicate n FError @ [FExecuting, FComplete])"
| "in_order W_Exit fs n = (fs = entered @ replicate n FError @ [FExecuting, FComplete])"

definition worker_inv :: "apis \<Rightarrow> worker \<Rightarrow> bool" where
  "worker_inv api w \<longleftrightarrow>
     on_course api w \<and> in_order (pc w) (stores w) (length (errors (history w)))"

text \<open>The value of \<^verbatim>\<open>Error\<close> a goroutine has read and not yet written back.\<close>

fun error_read :: "wpc \<Rightarrow> int option" where
  "error_read (W_SecretsErrorStore v) = Some v"
| "error_read (W_ParametersErrorStore v) = Some v"
| "error_read _ = None"

text \<open>
  \<^verbatim>\<open>Error\<close> never falls below its value at the call, whatever the order of the
  reads and writes, and is above it once any goroutine has written it.
\<close>

definition error_inv :: "SecretsModule \<Rightarrow> state \<Rightarrow> bool" where
  "error_inv m s \<longleftrightarrow>
     Error (CommandCounter m) \<le> Error (counter s) \<and>
     (\<forall>w\<in>set (workers s). \<forall>v. error_read (pc w) = Some v \<longrightarrow> Error (CommandCounter m) \<le> v) \<and>
     ((\<exists>w\<in>set (workers s). FError \<in> set (stores w)) \<longrightarrow>
        Error (CommandCounter m) + 1 \<le> Error (counter s))"

text \<open>Every goroutine is on course and has written its counters in order.\<close>

definition workers_inv :: "apis \<Rightarrow> state \<Rightarrow> bool" where
  "workers_inv api s \<longleftrightarrow> (\<forall>w\<in>set (workers s). worker_inv api w)"

text \<open>
  The remote side answers the requests of one loop with the pages \<open>ps\<close>, in this
  order: every request succeeds, every page but the last carries a token, the
  last carries none.
\<close>

fun servesSecretPages ::
  "SecretsManagerClient \<Rightarrow> string \<Rightarrow> string option \<Rightarrow> ListSecretsOutput list \<Rightarrow> bool" where
  "servesSecretPages client r tok [] = False"
| "servesSecretPages client r tok [p] = (client r tok = Inr p \<and> ListSecretsNextToken p = None)"
| "servesSecretPages client r tok (p # q # ps) =
     (client r tok = Inr p \<and> ListSecretsNextToken p \<noteq> None \<and>
      servesSecretPages client r (ListSecretsNextToken p) (q # ps))"

fun servesParameterPages ::
  "SSMClient \<Rightarrow> string \<Rightarrow> string option \<Rightarrow> DescribeParametersOutput list \<Rightarrow> bool" where
  "servesParameterPages client r tok [] = False"
| "servesParameterPages client r tok [p] =
     (client r tok = Inr p \<and> DescribeParametersNextToken p = None)"
| "servesParameterPages client r tok (p # q # ps) =
     (client r tok = Inr p \<and> DescribeParametersNextToken p \<noteq> None \<and>
      servesParameterPages client r (DescribeParametersNextToken p) (q # ps))"

text \<open>The items, and the number of raw records, in the pages of one region.\<close>

definition itemsOfPages ::
  "string \<Rightarrow> ListSecretsOutput list \<Rightarrow> DescribeParametersOutput list \<Rightarrow> Secret list" where
  "itemsOfPages r ps qs =
     concat (map (\<lambda>p. map (secretOfEntry r) (SecretList p)) ps) @
     concat (map (\<lambda>q. map (secretOfParameter r) (Parameters q)) qs)"

definition recordsInPages ::
  "ListSecretsOutput list \<Rightarrow> DescribeParametersOutput list \<Rightarrow> nat" where
  "recordsInPages ps qs =
     (\<Sum>p\<leftarrow>ps. length (SecretList p)) + (\<Sum>q\<leftarrow>qs. length (Parameters q))"

text \<open>The stop signal has been taken by \<^verbatim>\<open>Receiver\<close> (line 86 is behind main).\<close>

definition stopped :: "state \<Rightarrow> bool" where
  "stopped s \<longleftrightarrow> mainpc s = M_ReceiverAck \<or> mainpc s = M_Joined"

text \<open>The command line the loot file should carry for one Secret.\<close>

definition lootCommand :: "Secret \<Rightarrow> string" where
  "lootCommand secret =
     (if AWSService secret = ''SecretsManager''
      then ''aws --profile $profile --region '' @ Region secret
             @ '' secretsmanager get-secret-value --secret-id '' @ Name secret @ ''\<newline>''
      else ''aws --profile $profile --region '' @ Region secret
             @ '' ssm get-parameter --with-decryption --name '' @ Name secret @ ''\<newline>'')"

text \<open>The two service names \<^verbatim>\<open>writeLoot\<close> has a command for.\<close>

definition knownService :: "Secret \<Rightarrow> bool" where
  "knownService secret \<longleftrightarrow> AWSService secret = ''SecretsManager'' \<or> AWSService secret = ''SSM''"

text \<open>Only Secrets of those two services are collected.\<close>

definition services_inv :: "state \<Rightarrow> bool" where
  "services_inv s \<longleftrightarrow>
     list_all knownService (Secrets (module s)) \<and>
     (case receiver s of R_Append data \<Rightarrow> knownService data | _ \<Rightarrow> True)"

text \<open>The fields of the module no goroutine writes between lines 75 and 89.\<close>

definition untouched :: "SecretsModule \<Rightarrow> state \<Rightarrow> bool" where
  "untouched m s \<longleftrightarrow>
     AWSProfile (module s) = AWSProfile m \<and> Caller (module s) = Caller m \<and>
     AWSRegions (module s) = AWSRegions m \<and> outputData (module s) = outputData m"

text \<open>The profile name lines 54-56 settle on.\<close>

definition resolvedProfile :: "SecretsModule \<Rightarrow> string" where
  "resolvedProfile m =
     (if AWSProfile m = []
      then ToString (Account (Caller m)) @ ''-'' @ ToString (UserId (Caller m))
      else AWSProfile m)"

text \<open>
  A goroutine is between the read and the write of a counter update. A step
  of thread \<open>t\<close> is undisturbed if no other goroutine is; a run is update-atomic
  if every step of it is undisturbed.
\<close>

fun storing :: "wpc \<Rightarrow> bool" where
  "storing (W_TotalStore v) = True"
| "storing (W_PendingStore v) = True"
| "storing (W_ExecutingIncStore v) = True"
| "storing (W_SecretsErrorStore v) = True"
| "storing (W_ParametersErrorStore v) = True"
| "storing (W_ExecutingDecStore v) = True"
| "storing (W_CompleteStore v) = True"
| "storing _ = False"

fun main_storing :: "mpc \<Rightarrow> bool" where
  "main_storing (M_PendingStore r rs v) = True"
| "main_storing _ = False"

definition undisturbed :: "state \<Rightarrow> thread \<Rightarrow> bool" where
  "undisturbed s t \<longleftrightarrow>
     (t = MainThread \<or> \<not> main_storing (mainpc s)) \<and>
     list_all (\<lambda>j. t = Worker j \<or> \<not> storing (pc (workers s ! j))) [0..<length (workers s)]"

fun exec_atomic :: "apis \<Rightarrow> state \<Rightarrow> thread list \<Rightarrow> state option" where
  "exec_atomic api s [] = Some s"
| "exec_atomic api s (t # ts) =
     (if undisturbed s t
      then (case step api s t of None \<Rightarrow> None | Some s' \<Rightarrow> exec_atomic api s' ts)
      else None)"

text \<open>The value a goroutine has read is still the value of the field.\<close>

fun fresh_reg :: "CommandCounter \<Rightarrow> wpc \<Rightarrow> bool" where
  "fresh_reg c (W_TotalStore v) = (v = Total c)"
| "fresh_reg c (W_PendingStore v) = (v = Pending c)"
| "fresh_reg c (W_ExecutingIncStore v) = (v = Executing c)"
| "fresh_reg c (W_SecretsErrorStore v) = (v = Error c)"
| "fresh_reg c (W_ParametersErrorStore v) = (v = Error c)"
| "fresh_reg c (W_ExecutingDecStore v) = (v = Executing c)"
| "fresh_reg c (W_CompleteStore v) = (v = Complete c)"
| "fresh_reg c _ = True"

fun main_fresh :: "CommandCounter \<Rightarrow> mpc \<Rightarrow> bool" where
  "main_fresh c (M_PendingStore r rs v) = (v = Pending c)"
| "main_fresh c _ = True"

text \<open>
  Where a goroutine stands in \<^verbatim>\<open>executeChecks\<close>: one if it has done its
  \<^verbatim>\<open>Pending--\<close>; one if it has done its \<^verbatim>\<open>Executing++\<close> and not yet its
  \<^verbatim>\<open>Executing--\<close>; one if it has done its \<^verbatim>\<open>Complete++\<close>.
\<close>

fun left_pending :: "wpc \<Rightarrow> int" where
  "left_pending W_TotalLoad = 0"
| "left_pending (W_TotalStore v) = 0"
| "left_pending W_PendingLoad = 0"
| "left_pending (W_PendingStore v) = 0"
| "left_pending _ = 1"

fun in_executing :: "wpc \<Rightarrow> int" where
  "in_executing (W_ListSecrets tok) = 1"
| "in_executing (W_SecretsLogError err) = 1"
| "in_executing W_SecretsErrorLoad = 1"
| "in_executing (W_SecretsErrorStore v) = 1"
| "in_executing (W_SecretsSend entries tok) = 1"
| "in_executing (W_DescribeParameters tok) = 1"
| "in_executing (W_ParametersLogError err) = 1"
| "in_executing W_ParametersErrorLoad = 1"
| "in_executing (W_ParametersErrorStore v) = 1"
| "in_executing (W_ParametersSend entries tok) = 1"
| "in_executing W_ExecutingDecLoad = 1"
| "in_executing (W_ExecutingDecStore v) = 1"
| "in_executing _ = 0"

fun completed :: "wpc \<Rightarrow> int" where
  "completed W_Done = 1"
| "completed W_Exit = 1"
| "completed _ = 0"


text \<open>The number of regions for which main has done its \<^verbatim>\<open>Pending++\<close> (line 77).\<close>

definition scheduled :: "state \<Rightarrow> int" where
  "scheduled s = int (length (workers s)) + (case mainpc s of M_Go r rs \<Rightarrow> 1 | _ \<Rightarrow> 0)"

text \<open>
  In an update-atomic run every value read is still current when it is written
  back, and each counter is its value at the call plus the goroutines it
  counts.
\<close>

definition atomic_inv :: "SecretsModule \<Rightarrow> state \<Rightarrow> bool" where
  "atomic_inv m s \<longleftrightarrow>
     main_fresh (counter s) (mainpc s) \<and>
     (\<forall>w\<in>set (workers s). fresh_reg (counter s) (pc w)) \<and>
     Pending (counter s) =
       Pending (CommandCounter m) + scheduled s - (\<Sum>w\<leftarrow>workers s. left_pending (pc w)) \<and>
     Executing (counter s) =
       Executing (CommandCounter m) + (\<Sum>w\<leftarrow>workers s. in_executing (pc w)) \<and>
     Complete (counter s) =
       Complete (CommandCounter m) + (\<Sum>w\<leftarrow>workers s. completed (pc w))"

text \<open>The counters after a goroutine's action.\<close>

fun written :: "action \<Rightarrow> CommandCounter \<Rightarrow> CommandCounter" where
  "written (Write f v) c = put f v c"
| "written _ c = c"

text \<open>
  A bound on the steps a goroutine still takes: each request, log entry and
  send uses up one of the effects still to come, and between two of them the
  program point only moves forward.
\<close>

fun rank :: "wpc \<Rightarrow> nat" where
  "rank W_TotalLoad = 30"
| "rank (W_TotalStore v) = 29"
| "rank W_PendingLoad = 28"
| "rank (W_PendingStore v) = 27"
| "rank W_ExecutingIncLoad = 26"
| "rank (W_ExecutingIncStore v) = 25"
| "rank (W_SecretsSend entries tok) = 24"
| "rank (W_ListSecrets tok) = 23"
| "rank (W_SecretsLogError err) = 22"
| "rank W_SecretsErrorLoad = 21"
| "rank (W_SecretsErrorStore v) = 20"
| "rank (W_ParametersSend entries tok) = 19"
| "rank (W_DescribeParameters tok) = 18"
| "rank (W_ParametersLogError err) = 17"
| "rank W_ParametersErrorLoad = 16"
| "rank (W_ParametersErrorStore v) = 15"
| "rank W_ExecutingDecLoad = 14"
| "rank (W_ExecutingDecStore v) = 13"
| "rank W_CompleteLoad = 12"
| "rank (W_CompleteStore v) = 11"
| "rank W_Done = 10"
| "rank W_Exit = 0"

definition weight :: "effects \<Rightarrow> nat" where
  "weight e = length (sends e) + length (errors e) + length (calls e)"

definition steps_bound :: "apis \<Rightarrow> string \<Rightarrow> wpc \<Rightarrow> nat" where
  "steps_bound api r p =
     (case remaining api r p of None \<Rightarrow> 0 | Some e \<Rightarrow> 31 * weight e + rank p)"

text \<open>The spinner answers the stop signal exactly when main waits for the answer.\<close>

definition spinner_inv :: "state \<Rightarrow> bool" where
  "spinner_inv s \<longleftrightarrow>
     (spinner s = S_Spinning \<longleftrightarrow>
        mainpc s \<noteq> M_SpinnerAck \<and> mainpc s \<noteq> M_ReceiverStop \<and>
        mainpc s \<noteq> M_ReceiverAck \<and> mainpc s \<noteq> M_Joined) \<and>
     (spinner s = S_Ack \<longleftrightarrow> mainpc s = M_SpinnerAck)"

text \<open>
  The items of the records a goroutine has been handed by its last request and
  has not yet sent (lines 211 and 257 range over them).
\<close>

fun waiting :: "string \<Rightarrow> wpc \<Rightarrow> Secret list" where
  "waiting r (W_SecretsSend entries tok) = map (secretOfEntry r) entries"
| "waiting r (W_ParametersSend entries tok) = map (secretOfParameter r) entries"
| "waiting r _ = []"

text \<open>The goroutine has not yet left \<^verbatim>\<open>getSecretsManagerSecretsPerRegion\<close>.\<close>

fun listing :: "wpc \<Rightarrow> bool" where
  "listing (W_DescribeParameters tok) = False"
| "listing (W_ParametersLogError err) = False"
| "listing W_ParametersErrorLoad = False"
| "listing (W_ParametersErrorStore v) = False"
| "listing (W_ParametersSend entries tok) = False"
| "listing W_ExecutingDecLoad = False"
| "listing (W_ExecutingDecStore v) = False"
| "listing W_CompleteLoad = False"
| "listing (W_CompleteStore v) = False"
| "listing W_Done = False"
| "listing W_Exit = False"
| "listing _ = True"

text \<open>
  What a goroutine has sent and still holds is one item for each record it has
  been handed, in the order in which it was handed them.
\<close>

definition delivered :: "worker \<Rightarrow> bool" where
  "delivered w \<longleftrightarrow>
     sends (history w) @ waiting (region w) (pc w) =
       map (secretOfEntry (region w)) (listed w) @
       map (secretOfParameter (region w)) (described w) \<and>
     (listing (pc w) \<longrightarrow> described w = [])"

definition delivered_inv :: "state \<Rightarrow> bool" where
  "delivered_inv s \<longleftrightarrow> (\<forall>w\<in>set (workers s). delivered w)"

text \<open>
  In every run \<^verbatim>\<open>Complete\<close>, and every value of it a goroutine has read and not yet
  written back, lies between its value at the call and that value plus the
  number of goroutines that have done their \<^verbatim>\<open>Complete++\<close>; once one has, it is
  above its value at the call.
\<close>

definition complete_inv :: "SecretsModule \<Rightarrow> state \<Rightarrow> bool" where
  "complete_inv m s \<longleftrightarrow>
     Complete (CommandCounter m) \<le> Complete (counter s) \<and>
     Complete (counter s) \<le> Complete (CommandCounter m) + (\<Sum>w\<leftarrow>workers s. completed (pc w)) \<and>
     (\<forall>w\<in>set (workers s). \<forall>v. pc w = W_CompleteStore v \<longrightarrow>
        Complete (CommandCounter m) \<le> v \<and>
        v \<le> Complete (CommandCounter m) + (\<Sum>w\<leftarrow>workers s. completed (pc w))) \<and>
     (0 < (\<Sum>w\<leftarrow>workers s. completed (pc w)) \<longrightarrow>
        Complete (CommandCounter m) + 1 \<le> Complete (counter s))"

section \<open>Example inputs\<close>

text \<open>A module as its callers build it: counters at zero, nothing collected yet.\<close>

definition freshModule :: "string list \<Rightarrow> SecretsModule" where
  "freshModule rs =
     \<lparr>Caller = \<lparr>Account = Some ''123456789012'', UserId = Some ''AIDAEXAMPLE''\<rparr>,
      AWSRegions = rs, AWSProfile = [], Secrets = [],
      CommandCounter = \<lparr>Total = 0, Pending = 0, Complete = 0, Error = 0, Executing = 0\<rparr>,
      outputData = \<lparr>Verbosity = 0, Directory = [], CallingModule = [], Headers = [],
                    Body = [], FilePath = []\<rparr>,
      modLog = []\<rparr>"

text \<open>
  A remote side where every request succeeds: in \<^verbatim>\<open>us-east-1\<close> two pages of
  secrets (two entries, then one) and one parameter; elsewhere one empty page
  of each kind.
\<close>

definition pagedSecrets :: "ListSecretsOutput list" where
  "pagedSecrets =
     [ListSecretsOutput [SecretListEntry (Some ''db-password'') (Some ''main database''),
                         SecretListEntry (Some ''api-key'') None] (Some ''page2''),
      ListSecretsOutput [SecretListEntry (Some ''token'') None] None]"

definition pagedParameters :: "DescribeParametersOutput list" where
  "pagedParameters =
     [DescribeParametersOutput [ParameterMetadata (Some ''/app/config'') (Some ''settings'')] None]"

definition pagedApis :: apis where
  "pagedApis =
     \<lparr>SecretsManagerClient = (\<lambda>r tok.
         if r = ''us-east-1'' \<and> tok = None then Inr (pagedSecrets ! 0)
         else if r = ''us-east-1'' \<and> tok = Some ''page2'' then Inr (pagedSecrets ! 1)
         else Inr (ListSecretsOutput [] None)),
      SSMClient = (\<lambda>r tok.
         if r = ''us-east-1'' \<and> tok = None then Inr (pagedParameters ! 0)
         else Inr (DescribeParametersOutput [] None))\<rparr>"

text \<open>A goroutine's send followed by the append of the value sent.\<close>

definition handOver :: "nat \<Rightarrow> thread list" where
  "handOver i = [Worker i, ReceiverThread]"

text \<open>One region against \<open>pagedApis\<close>, the goroutine running without interruption.\<close>

definition pagedSchedule :: "thread list" where
  "pagedSchedule =
     replicate 4 MainThread @ replicate 7 (Worker 0) @ handOver 0 @ handOver 0 @
     replicate 2 (Worker 0) @ handOver 0 @ replicate 2 (Worker 0) @ handOver 0 @
     replicate 6 (Worker 0) @ replicate 6 MainThread"

text \<open>
  The remote side of the example scenario: in \<^verbatim>\<open>us-east-1\<close> one page of two
  secrets and a failing parameter listing; in \<^verbatim>\<open>us-west-2\<close> one page of one
  entry from each source.
\<close>

definition scenarioApis :: apis where
  "scenarioApis =
     \<lparr>SecretsManagerClient = (\<lambda>r tok.
         if r = ''us-east-1''
         then Inr (ListSecretsOutput [SecretListEntry (Some ''a1'') (Some ''first''),
                                      SecretListEntry (Some ''a2'') None] None)
         else Inr (ListSecretsOutput [SecretListEntry (Some ''a3'') None] None)),
      SSMClient = (\<lambda>r tok.
         if r = ''us-east-1'' then Inl ''AccessDeniedException''
         else Inr (DescribeParametersOutput [ParameterMetadata (Some ''b1'') None] None))\<rparr>"

definition scenarioModule :: SecretsModule where
  "scenarioModule = freshModule [''us-east-1'', ''us-west-2'']"

text \<open>Both goroutines are started, then each runs without interruption.\<close>

definition scenarioSchedule :: "thread list" where
  "scenarioSchedule =
     replicate 9 MainThread @
     replicate 7 (Worker 0) @ handOver 0 @ handOver 0 @ replicate 10 (Worker 0) @
     replicate 7 (Worker 1) @ handOver 1 @ replicate 2 (Worker 1) @ handOver 1 @
     replicate 6 (Worker 1) @
     replicate 5 MainThread"

text \<open>An environment in which both file-system calls succeed.\<close>

definition plainEnv :: env where
  "plainEnv =
     \<lparr>cyan = (\<lambda>s. s), green = (\<lambda>s. s),
      Join = (\<lambda>parts. concat (map (\<lambda>p. ''/'' @ p) parts)),
      MkdirAll = (\<lambda>path. None), WriteFile = (\<lambda>path content. None)\<rparr>"

text \<open>A remote side with nothing to list, and two runs over two regions.\<close>

definition quietApis :: apis where
  "quietApis =
     \<lparr>SecretsManagerClient = (\<lambda>r tok. Inr (ListSecretsOutput [] None)),
      SSMClient = (\<lambda>r tok. Inr (DescribeParametersOutput [] None))\<rparr>"

text \<open>
  Both goroutines read \<^verbatim>\<open>Complete\<close> before either writes it: the first runs up to
  its read at line 146, the second runs to its end, then the first goes on.
\<close>

definition lostUpdateSchedule :: "thread list" where
  "lostUpdateSchedule =
     replicate 9 MainThread @ replicate 13 (Worker 0) @ replicate 15 (Worker 1) @
     replicate 2 (Worker 0) @ replicate 5 MainThread"


text \<open>An environment in which both file-system calls fail.\<close>

definition failingEnv :: env where
  "failingEnv =
     \<lparr>cyan = (\<lambda>s. s), green = (\<lambda>s. s),
      Join = (\<lambda>parts. concat (map (\<lambda>p. ''/'' @ p) parts)),
      MkdirAll = (\<lambda>path. Some ''mkdir: permission denied''),
      WriteFile = (\<lambda>path content. Some ''open: no such file or directory'')\<rparr>"

section \<open>Properties\<close>

subsection \<open>Runs and what every run preserves\<close>

lemma sum_list_map_update:
  fixes f :: "'a \<Rightarrow> 'b::comm_monoid_add"
  shows "i < length ws \<Longrightarrow>
    sum_list (map f (ws[i := w])) + f (ws ! i) = sum_list (map f ws) + f w"
proof (induction ws arbitrary: i)
  case Nil
  then show ?case by simp
next
  case (Cons a ws)
  show ?case
  proof (cases i)
    case 0
    then show ?thesis by (simp add: add.commute add.left_commute)
  next
    case (Suc j)
    with Cons.prems have "j < length ws" by simp
    from Cons.IH [OF this] Suc show ?thesis by (simp add: add.assoc)
  qed
qed

lemma exec_append: "exec api s (ts @ us) = (case exec api s ts of None \<Rightarrow> None | Some s' \<Rightarrow> exec api s' us)"
  by (induction ts arbitrary: s) (auto split: option.splits)

lemma exec_invariant:
  assumes "exec api s0 ts = Some s" and "P s0"
    and "\<And>s t s'. P s \<Longrightarrow> step api s t = Some s' \<Longrightarrow> P s'"
  shows "P s"
  using assms(1,2)
proof (induction ts arbitrary: s0)
  case Nil
  then show ?case by simp
next
  case (Cons t ts)
  then show ?case by (auto split: option.splits intro: assms(3))
qed

lemma perform_frame:
  "perform a s = Some s0 \<Longrightarrow>
     workers s0 = workers s \<and> mainpc s0 = mainpc s \<and> spinner s0 = spinner s"
  by (cases a) (auto simp: set_counter_def split: if_splits)

lemma worker_stepE:
  assumes "worker_step api i s = Some s'"
  obtains a p s0 where "i < length (workers s)"
    and "executeChecks_step api (counter s) (region (workers s ! i)) (pc (workers s ! i)) = Some (a, p)"
    and "perform a s = Some s0"
    and "s' = s0\<lparr>workers := (workers s)[i := (workers s ! i)\<lparr>pc := p,
            history := record_action a (history (workers s ! i)),
            stores := record_store a (stores (workers s ! i)),
            listed := listed (workers s ! i) @ listedAt api (region (workers s ! i)) (pc (workers s ! i)),
            described := described (workers s ! i)
              @ describedAt api (region (workers s ! i)) (pc (workers s ! i))\<rparr>]\<rparr>"
  using assms perform_frame
  by (fastforce simp: worker_step_def Let_def split: if_splits option.splits prod.splits)

lemma executeChecks_step_exit:
  "executeChecks_step api c r p = Some (a, p') \<Longrightarrow>
     p \<noteq> W_Exit \<and> (p' = W_Exit \<longleftrightarrow> a = WaitGroupDone) \<and> (a = WaitGroupDone \<longleftrightarrow> p = W_Done)"
  by (induction api c r p rule: executeChecks_step.induct) (auto split: sum.splits if_splits)

lemma live_nonneg: "0 \<le> sum_list (map live ws)"
  by (rule sum_list_nonneg) (auto simp: live_def)

lemma live_zero: "sum_list (map live ws) = 0 \<Longrightarrow> w \<in> set ws \<Longrightarrow> pc w = W_Exit"
proof (induction ws)
  case Nil
  then show ?case by simp
next
  case (Cons a ws)
  have "0 \<le> live a" "0 \<le> sum_list (map live ws)"
    using live_nonneg by (simp_all add: live_def)
  with Cons.prems(1) have "live a = 0" "sum_list (map live ws) = 0" by simp_all
  with Cons show ?case by (auto simp: live_def split: if_splits)
qed

lemma structure_inv_start: "structure_inv m (start m)"
  by (simp add: structure_inv_def start_def)

lemma structure_inv_main:
  "structure_inv m s \<Longrightarrow> main_step s = Some s' \<Longrightarrow> structure_inv m s'"
  by (auto simp: structure_inv_def live_def set_counter_def split: mpc.splits list.splits if_splits)

lemma structure_inv_receiver:
  "structure_inv m s \<Longrightarrow> receiver_step s = Some s' \<Longrightarrow> structure_inv m s'"
  by (auto simp: structure_inv_def split: rpc.splits)

lemma structure_inv_worker:
  assumes inv: "structure_inv m s" and st: "worker_step api i s = Some s'"
  shows "structure_inv m s'"
proof -
  from st obtain a p s0 where i: "i < length (workers s)"
    and ex: "executeChecks_step api (counter s) (region (workers s ! i)) (pc (workers s ! i)) = Some (a, p)"
    and pf: "perform a s = Some s0"
    and s': "s' = s0\<lparr>workers := (workers s)[i := (workers s ! i)\<lparr>pc := p,
            history := record_action a (history (workers s ! i)),
            stores := record_store a (stores (workers s ! i)),
            listed := listed (workers s ! i) @ listedAt api (region (workers s ! i)) (pc (workers s ! i)),
            described := described (workers s ! i)
              @ describedAt api (region (workers s ! i)) (pc (workers s ! i))\<rparr>]\<rparr>"
    by (rule worker_stepE)
  let ?w = "workers s ! i"
  let ?w' = "?w\<lparr>pc := p, history := record_action a (history ?w), stores := record_store a (stores ?w),
                listed := listed ?w @ listedAt api (region ?w) (pc ?w),
                described := described ?w @ describedAt api (region ?w) (pc ?w)\<rparr>"
  from executeChecks_step_exit [OF ex]
  have ne: "pc ?w \<noteq> W_Exit" and pe: "p = W_Exit \<longleftrightarrow> a = WaitGroupDone" by simp_all
  have regs: "map region ((workers s)[i := ?w']) = map region (workers s)"
    using i by (simp add: map_update list_update_same_conv)
  have sum: "sum_list (map live ((workers s)[i := ?w'])) + live ?w = sum_list (map live (workers s)) + live ?w'"
    using i by (rule sum_list_map_update)
  have livew: "live ?w = 1" using ne by (simp add: live_def)
  have notpast: "\<not> past_wait (mainpc s)"
  proof
    assume "past_wait (mainpc s)"
    with inv have "sum_list (map live (workers s)) = 0"
      by (cases "mainpc s") (auto simp: structure_inv_def)
    from live_zero [OF this] i have "pc ?w = W_Exit" by simp
    with ne show False by simp
  qed
  show ?thesis
  proof (cases "a = WaitGroupDone")
    case True
    with pe have "live ?w' = 0" by (simp add: live_def)
    with sum livew have "sum_list (map live ((workers s)[i := ?w'])) = sum_list (map live (workers s)) - 1"
      by simp
    moreover from True pf have "s0 = s\<lparr>wg := wg s - 1\<rparr>" by auto
    ultimately show ?thesis using inv regs notpast s'
      by (simp add: structure_inv_def)
  next
    case False
    with pe have "live ?w' = 1" by (simp add: live_def)
    with sum livew have "sum_list (map live ((workers s)[i := ?w'])) = sum_list (map live (workers s))"
      by simp
    moreover from False pf have "wg s0 = wg s \<and> mainpc s0 = mainpc s \<and>
        (receiver s0 = R_Ack \<longleftrightarrow> receiver s = R_Ack) \<and> (receiver s0 = R_Closed \<longleftrightarrow> receiver s = R_Closed)"
      by (cases a) (auto simp: set_counter_def split: if_splits)
    ultimately show ?thesis using inv regs notpast s'
      by (simp add: structure_inv_def)
  qed
qed

lemma structure_inv_step:
  "structure_inv m s \<Longrightarrow> step api s t = Some s' \<Longrightarrow> structure_inv m s'"
  by (cases t) (auto intro: structure_inv_main structure_inv_worker structure_inv_receiver)

lemma structure_inv_exec:
  "exec api (start m) ts = Some s \<Longrightarrow> structure_inv m s"
  by (erule exec_invariant [where P = "structure_inv m"])
     (auto intro: structure_inv_start structure_inv_step)

lemma items_inv_start: "items_inv m (start m)"
  by (simp add: items_inv_def start_def submitted_def)

lemma items_inv_main:
  "items_inv m s \<Longrightarrow> main_step s = Some s' \<Longrightarrow> items_inv m s'"
  by (auto simp: items_inv_def submitted_def set_counter_def no_effects_def
      split: mpc.splits list.splits if_splits)

lemma items_inv_receiver:
  "items_inv m s \<Longrightarrow> receiver_step s = Some s' \<Longrightarrow> items_inv m s'"
  by (auto simp: items_inv_def submitted_def split: rpc.splits)

lemma items_inv_worker:
  assumes inv: "items_inv m s" and st: "worker_step api i s = Some s'"
  shows "items_inv m s'"
proof -
  from st obtain a p s0 where i: "i < length (workers s)"
    and ex: "executeChecks_step api (counter s) (region (workers s ! i)) (pc (workers s ! i)) = Some (a, p)"
    and pf: "perform a s = Some s0"
    and s': "s' = s0\<lparr>workers := (workers s)[i := (workers s ! i)\<lparr>pc := p,
            history := record_action a (history (workers s ! i)),
            stores := record_store a (stores (workers s ! i)),
            listed := listed (workers s ! i) @ listedAt api (region (workers s ! i)) (pc (workers s ! i)),
            described := described (workers s ! i)
              @ describedAt api (region (workers s ! i)) (pc (workers s ! i))\<rparr>]\<rparr>"
    by (rule worker_stepE)
  let ?w = "workers s ! i"
  let ?w' = "?w\<lparr>pc := p, history := record_action a (history ?w), stores := record_store a (stores ?w),
                listed := listed ?w @ listedAt api (region ?w) (pc ?w),
                described := described ?w @ describedAt api (region ?w) (pc ?w)\<rparr>"
  let ?f = "\<lambda>w. mset (sends (history w))"
  have sum: "sum_list (map ?f ((workers s)[i := ?w'])) + ?f ?w = sum_list (map ?f (workers s)) + ?f ?w'"
    using i by (rule sum_list_map_update)
  show ?thesis
  proof (cases a)
    case (Send d)
    with pf have r: "receiver s = R_Select" and s0: "s0 = s\<lparr>receiver := R_Append d\<rparr>"
      by (auto split: if_splits)
    from Send have "?f ?w' = ?f ?w + {#d#}" by simp
    with sum have "sum_list (map ?f ((workers s)[i := ?w'])) = sum_list (map ?f (workers s)) + {#d#}"
      by (simp add: add.commute add.left_commute)
    with inv r s0 s' show ?thesis by (simp add: items_inv_def submitted_def)
  next
    case Internal
    with pf sum inv s' show ?thesis by (auto simp: items_inv_def submitted_def)
  next
    case (Write f v)
    with pf sum inv s' show ?thesis by (auto simp: items_inv_def submitted_def set_counter_def)
  next
    case (Request tok)
    with pf sum inv s' show ?thesis by (auto simp: items_inv_def submitted_def)
  next
    case (LogError e)
    with pf sum inv s' show ?thesis by (auto simp: items_inv_def submitted_def)
  next
    case WaitGroupDone
    with pf sum inv s' show ?thesis by (auto simp: items_inv_def submitted_def)
  qed
qed

lemma items_inv_step:
  "items_inv m s \<Longrightarrow> step api s t = Some s' \<Longrightarrow> items_inv m s'"
  by (cases t) (auto intro: items_inv_main items_inv_worker items_inv_receiver)

lemma items_inv_exec:
  "exec api (start m) ts = Some s \<Longrightarrow> items_inv m s"
  by (erule exec_invariant [where P = "items_inv m"])
     (auto intro: items_inv_start items_inv_step)

subsection \<open>The goroutines follow the pagination loops\<close>

lemma seq_effects_simps [simp]:
  "seq_effects None b = None" "seq_effects a None = None"
  "seq_effects (Some x) (Some y) = Some (then_effects x y)"
  by (cases a; simp add: seq_effects_def)+

lemma then_effects_assoc: "then_effects (then_effects a b) c = then_effects a (then_effects b c)"
  by (simp add: then_effects_def)

lemma then_effects_no_effects [simp]: "then_effects a no_effects = a" "then_effects no_effects a = a"
  by (simp_all add: then_effects_def no_effects_def)

lemma seq_effects_assoc: "seq_effects (seq_effects a b) c = seq_effects a (seq_effects b c)"
  by (cases a; cases b; cases c) (simp_all add: then_effects_assoc)

lemma seq_effects_no_effects [simp]:
  "seq_effects a (Some no_effects) = a" "seq_effects (Some no_effects) a = a"
  "seq_effects a (Some \<lparr>sends = [], errors = [], calls = []\<rparr>) = a"
  "seq_effects (Some \<lparr>sends = [], errors = [], calls = []\<rparr>) a = a"
  by (cases a; simp add: no_effects_def then_effects_def)+

lemma listSecretsFrom_Inl:
  "client r tok = Inl err \<Longrightarrow>
   listSecretsFrom client r tok = Some \<lparr>sends = [], errors = [err], calls = [tok]\<rparr>"
  by (subst listSecretsFrom.simps) simp

lemma listSecretsFrom_Inr:
  "client r tok = Inr out \<Longrightarrow>
   listSecretsFrom client r tok =
     seq_effects (Some \<lparr>sends = map (secretOfEntry r) (SecretList out), errors = [], calls = [tok]\<rparr>)
       (case ListSecretsNextToken out of None \<Rightarrow> Some no_effects
        | Some t \<Rightarrow> listSecretsFrom client r (Some t))"
  by (subst listSecretsFrom.simps) (simp add: seq_effects_def split: option.splits)

lemma describeParametersFrom_Inl:
  "client r tok = Inl err \<Longrightarrow>
   describeParametersFrom client r tok = Some \<lparr>sends = [], errors = [err], calls = [tok]\<rparr>"
  by (subst describeParametersFrom.simps) simp

lemma describeParametersFrom_Inr:
  "client r tok = Inr out \<Longrightarrow>
   describeParametersFrom client r tok =
     seq_effects (Some \<lparr>sends = map (secretOfParameter r) (Parameters out), errors = [], calls = [tok]\<rparr>)
       (case DescribeParametersNextToken out of None \<Rightarrow> Some no_effects
        | Some t \<Rightarrow> describeParametersFrom client r (Some t))"
  by (subst describeParametersFrom.simps) (simp add: seq_effects_def split: option.splits)

lemma record_action_then:
  "record_action a h = then_effects h (record_action a no_effects)"
  by (cases a) (simp_all add: then_effects_def no_effects_def)

lemma seq_effects_send:
  "seq_effects (seq_effects (Some \<lparr>sends = x # xs, errors = [], calls = []\<rparr>) k) b =
   seq_effects (Some \<lparr>sends = [x], errors = [], calls = []\<rparr>)
     (seq_effects (seq_effects (Some \<lparr>sends = xs, errors = [], calls = []\<rparr>) k) b)"
  by (cases k; cases b) (simp_all add: then_effects_def)

lemma seq_effects_send1:
  "seq_effects (Some \<lparr>sends = x # xs, errors = [], calls = []\<rparr>) k =
   seq_effects (Some \<lparr>sends = [x], errors = [], calls = []\<rparr>)
     (seq_effects (Some \<lparr>sends = xs, errors = [], calls = []\<rparr>) k)"
  by (cases k) (simp_all add: then_effects_def)

lemma seq_effects_request:
  "seq_effects (seq_effects (Some \<lparr>sends = xs, errors = [], calls = [tok]\<rparr>) k) b =
   seq_effects (Some \<lparr>sends = [], errors = [], calls = [tok]\<rparr>)
     (seq_effects (seq_effects (Some \<lparr>sends = xs, errors = [], calls = []\<rparr>) k) b)"
  by (cases k; cases b) (simp_all add: then_effects_def)

lemma seq_effects_request1:
  "seq_effects (Some \<lparr>sends = xs, errors = [], calls = [tok]\<rparr>) k =
   seq_effects (Some \<lparr>sends = [], errors = [], calls = [tok]\<rparr>)
     (seq_effects (Some \<lparr>sends = xs, errors = [], calls = []\<rparr>) k)"
  by (cases k) (simp_all add: then_effects_def)

lemma seq_effects_failed:
  "seq_effects (Some \<lparr>sends = [], errors = [err], calls = [tok]\<rparr>) b =
   seq_effects (Some \<lparr>sends = [], errors = [], calls = [tok]\<rparr>)
     (seq_effects (Some \<lparr>sends = [], errors = [err], calls = []\<rparr>) b)"
  by (cases b) (simp_all add: then_effects_def)

lemma remaining_step:
  "executeChecks_step api c r p = Some (a, p') \<Longrightarrow>
   remaining api r p = seq_effects (Some (record_action a no_effects)) (remaining api r p')"
proof (induction api c r p rule: executeChecks_step.induct)
  case (7 api c r tok)
  show ?case
  proof (cases "SecretsManagerClient api r tok")
    case (Inl err)
    with 7 show ?thesis
      by (auto simp: listSecretsFrom_Inl no_effects_def intro: seq_effects_failed)
  next
    case (Inr out)
    with 7 show ?thesis
      by (auto simp: listSecretsFrom_Inr no_effects_def intro: seq_effects_request)
  qed
next
  case (11 api c r secret rest NextToken)
  then show ?case
    by (auto simp: no_effects_def intro: seq_effects_send)
next
  case (12 api c r NextToken)
  then show ?case
    by (cases NextToken) (auto simp: getSSMParametersPerRegion_def no_effects_def)
next
  case (13 api c r tok)
  show ?case
  proof (cases "SSMClient api r tok")
    case (Inl err)
    with 13 show ?thesis
      by (auto simp: describeParametersFrom_Inl no_effects_def then_effects_def)
  next
    case (Inr out)
    with 13 show ?thesis
      by (auto simp: describeParametersFrom_Inr no_effects_def intro: seq_effects_request1)
  qed
next
  case (17 api c r parameter rest NextToken)
  then show ?case
    by (auto simp: no_effects_def intro: seq_effects_send1)
next
  case (18 api c r NextToken)
  then show ?case
    by (cases NextToken) (auto simp: no_effects_def)
qed (auto simp: executeChecks_effects_def getSecretsManagerSecretsPerRegion_def
      getSSMParametersPerRegion_def no_effects_def then_effects_def)

lemma replicate_pred: "xs \<noteq> [] \<Longrightarrow> x # replicate (length xs - Suc 0) x = replicate (length xs) x"
  by (cases xs) simp_all

lemma in_order_step:
  "executeChecks_step api c r p = Some (a, p') \<Longrightarrow> in_order p fs (length (errors h)) \<Longrightarrow>
   in_order p' (record_store a fs) (length (errors (record_action a h)))"
  by (induction api c r p rule: executeChecks_step.induct)
     (auto simp: entered_def replicate_append_same replicate_pred split: sum.splits if_splits)

lemma on_course_step:
  assumes "executeChecks_step api c (region w) (pc w) = Some (a, p')" and "on_course api w"
  shows "on_course api (w\<lparr>pc := p', history := record_action a (history w),
            stores := record_store a (stores w), listed := l, described := d\<rparr>)"
proof -
  have "seq_effects (Some (record_action a (history w))) (remaining api (region w) p')
      = seq_effects (seq_effects (Some (history w)) (Some (record_action a no_effects)))
          (remaining api (region w) p')"
    by (subst record_action_then) simp
  also have "\<dots> = seq_effects (Some (history w)) (remaining api (region w) (pc w))"
    by (simp only: seq_effects_assoc remaining_step [OF assms(1)])
  finally show ?thesis using assms(2) by (simp add: on_course_def)
qed

lemma worker_inv_step:
  "executeChecks_step api c (region w) (pc w) = Some (a, p') \<Longrightarrow> worker_inv api w \<Longrightarrow>
   worker_inv api (w\<lparr>pc := p', history := record_action a (history w),
      stores := record_store a (stores w), listed := l, described := d\<rparr>)"
  using in_order_step [of api c "region w" "pc w" a p' "stores w" "history w"]
  by (simp add: worker_inv_def on_course_step)

lemma workers_inv_start: "workers_inv api (start m)"
  by (simp add: workers_inv_def start_def)

lemma workers_inv_main:
  "workers_inv api s \<Longrightarrow> main_step s = Some s' \<Longrightarrow> workers_inv api s'"
  by (auto simp: workers_inv_def worker_inv_def on_course_def set_counter_def no_effects_def
      split: mpc.splits list.splits if_splits)

lemma workers_inv_receiver:
  "workers_inv api s \<Longrightarrow> receiver_step s = Some s' \<Longrightarrow> workers_inv api s'"
  by (auto simp: workers_inv_def split: rpc.splits)

lemma workers_inv_worker:
  assumes inv: "workers_inv api s" and st: "worker_step api i s = Some s'"
  shows "workers_inv api s'"
proof -
  from st obtain a p s0 where i: "i < length (workers s)"
    and ex: "executeChecks_step api (counter s) (region (workers s ! i)) (pc (workers s ! i)) = Some (a, p)"
    and pf: "perform a s = Some s0"
    and s': "s' = s0\<lparr>workers := (workers s)[i := (workers s ! i)\<lparr>pc := p,
            history := record_action a (history (workers s ! i)),
            stores := record_store a (stores (workers s ! i)),
            listed := listed (workers s ! i) @ listedAt api (region (workers s ! i)) (pc (workers s ! i)),
            described := described (workers s ! i)
              @ describedAt api (region (workers s ! i)) (pc (workers s ! i))\<rparr>]\<rparr>"
    by (rule worker_stepE)
  from inv i have "worker_inv api (workers s ! i)" by (simp add: workers_inv_def)
  from worker_inv_step [OF ex this,
      where l = "listed (workers s ! i) @ listedAt api (region (workers s ! i)) (pc (workers s ! i))"
        and d = "described (workers s ! i)
          @ describedAt api (region (workers s ! i)) (pc (workers s ! i))"]
    inv s' show ?thesis
    using set_update_subset_insert [of "workers s" i]
    by (auto simp: workers_inv_def)
qed

lemma workers_inv_step:
  "workers_inv api s \<Longrightarrow> step api s t = Some s' \<Longrightarrow> workers_inv api s'"
  by (cases t) (auto intro: workers_inv_main workers_inv_worker workers_inv_receiver)

lemma workers_inv_exec:
  "exec api (start m) ts = Some s \<Longrightarrow> workers_inv api s"
  by (erule exec_invariant [where P = "workers_inv api"])
     (auto intro: workers_inv_start workers_inv_step)

lemma worker_inv_exit:
  assumes "worker_inv api w" and "pc w = W_Exit"
  shows "executeChecks_effects api (region w) = Some (history w)"
    and "stores w = entered @ replicate (length (errors (history w))) FError @ [FExecuting, FComplete]"
  using assms by (simp_all add: worker_inv_def on_course_def)

subsection \<open>The error counter\<close>

lemma executeChecks_step_error:
  assumes "executeChecks_step api c r p = Some (a, p')"
  shows "error_read p' = Some v \<Longrightarrow> v = Error c"
    and "a = Write FError v \<Longrightarrow> error_read p = Some (v - 1)"
  using assms
  by (induction api c r p rule: executeChecks_step.induct) (auto split: sum.splits if_splits)

lemma perform_counter:
  "perform a s = Some s0 \<Longrightarrow>
   Error (counter s0) = (case a of Write FError v \<Rightarrow> v | _ \<Rightarrow> Error (counter s))"
  by (cases a) (auto simp: counter_def set_counter_def split: if_splits field.splits elim: put.elims)

lemma error_inv_start: "error_inv m (start m)"
  by (simp add: error_inv_def start_def counter_def)

lemma error_inv_main:
  "error_inv m s \<Longrightarrow> main_step s = Some s' \<Longrightarrow> error_inv m s'"
  by (auto simp: error_inv_def counter_def set_counter_def split: mpc.splits list.splits if_splits)

lemma error_inv_receiver:
  "error_inv m s \<Longrightarrow> receiver_step s = Some s' \<Longrightarrow> error_inv m s'"
  by (auto simp: error_inv_def counter_def split: rpc.splits)

lemma error_inv_worker:
  assumes inv: "error_inv m s" and st: "worker_step api i s = Some s'"
  shows "error_inv m s'"
proof -
  from st obtain a p s0 where i: "i < length (workers s)"
    and ex: "executeChecks_step api (counter s) (region (workers s ! i)) (pc (workers s ! i)) = Some (a, p)"
    and pf: "perform a s = Some s0"
    and s': "s' = s0\<lparr>workers := (workers s)[i := (workers s ! i)\<lparr>pc := p,
            history := record_action a (history (workers s ! i)),
            stores := record_store a (stores (workers s ! i)),
            listed := listed (workers s ! i) @ listedAt api (region (workers s ! i)) (pc (workers s ! i)),
            described := described (workers s ! i)
              @ describedAt api (region (workers s ! i)) (pc (workers s ! i))\<rparr>]\<rparr>"
    by (rule worker_stepE)
  let ?E = "Error (CommandCounter m)"
  let ?w = "workers s ! i"
  let ?w' = "?w\<lparr>pc := p, history := record_action a (history ?w), stores := record_store a (stores ?w),
                listed := listed ?w @ listedAt api (region ?w) (pc ?w),
                described := described ?w @ describedAt api (region ?w) (pc ?w)\<rparr>"
  have wi: "?w \<in> set (workers s)" using i by simp
  have cs': "counter s' = counter s0" using s' by (simp add: counter_def)
  have ws': "set (workers s') \<subseteq> insert ?w' (set (workers s))"
    using s' set_update_subset_insert [of "workers s" i] by simp
  from inv have base: "?E \<le> Error (counter s)"
    and reads: "\<And>w v. w \<in> set (workers s) \<Longrightarrow> error_read (pc w) = Some v \<Longrightarrow> ?E \<le> v"
    and tall: "(\<exists>w\<in>set (workers s). FError \<in> set (stores w)) \<Longrightarrow> ?E + 1 \<le> Error (counter s)"
    by (auto simp: error_inv_def)
  have new_read: "\<And>v. error_read p = Some v \<Longrightarrow> ?E \<le> v"
    using executeChecks_step_error(1) [OF ex] base by simp
  show ?thesis
  proof (cases "\<exists>v. a = Write FError v")
    case True
    then obtain v where a: "a = Write FError v" by blast
    from executeChecks_step_error(2) [OF ex a] reads [OF wi] have "?E \<le> v - 1" by simp
    moreover from perform_counter [OF pf] a cs' have "Error (counter s') = v" by simp
    ultimately have "?E + 1 \<le> Error (counter s')" by simp
    moreover have "\<And>w v. w \<in> set (workers s') \<Longrightarrow> error_read (pc w) = Some v \<Longrightarrow> ?E \<le> v"
      using ws' reads new_read by auto
    ultimately show ?thesis by (auto simp: error_inv_def)
  next
    case False
    with perform_counter [OF pf] cs' have same: "Error (counter s') = Error (counter s)"
      by (cases a) (auto split: field.splits)
    from False have st: "FError \<in> set (stores ?w') \<longleftrightarrow> FError \<in> set (stores ?w)"
      by (cases a) auto
    have "\<And>w v. w \<in> set (workers s') \<Longrightarrow> error_read (pc w) = Some v \<Longrightarrow> ?E \<le> v"
      using ws' reads new_read by auto
    moreover have "(\<exists>w\<in>set (workers s'). FError \<in> set (stores w)) \<Longrightarrow> ?E + 1 \<le> Error (counter s')"
    proof -
      assume "\<exists>w\<in>set (workers s'). FError \<in> set (stores w)"
      then obtain w where "w \<in> set (workers s')" "FError \<in> set (stores w)" by blast
      with ws' st wi have "\<exists>w\<in>set (workers s). FError \<in> set (stores w)" by auto
      from tall [OF this] same show ?thesis by simp
    qed
    ultimately show ?thesis using base same by (auto simp: error_inv_def)
  qed
qed

lemma error_inv_step:
  "error_inv m s \<Longrightarrow> step api s t = Some s' \<Longrightarrow> error_inv m s'"
  by (cases t) (auto intro: error_inv_main error_inv_worker error_inv_receiver)

lemma error_inv_exec:
  "exec api (start m) ts = Some s \<Longrightarrow> error_inv m s"
  by (erule exec_invariant [where P = "error_inv m"])
     (auto intro: error_inv_start error_inv_step)

subsection \<open>What is collected\<close>

lemma listSecretsFrom_pages:
  "servesSecretPages client r tok ps \<Longrightarrow>
   listSecretsFrom client r tok =
     Some \<lparr>sends = concat (map (\<lambda>p. map (secretOfEntry r) (SecretList p)) ps), errors = [],
           calls = tok # map ListSecretsNextToken (butlast ps)\<rparr>"
proof (induction client r tok ps rule: servesSecretPages.induct)
  case (1 client r tok)
  then show ?case by simp
next
  case (2 client r tok p)
  then show ?case by (simp add: listSecretsFrom_Inr then_effects_def)
next
  case (3 client r tok p q ps)
  then show ?case by (auto simp: listSecretsFrom_Inr then_effects_def)
qed

lemma describeParametersFrom_pages:
  "servesParameterPages client r tok ps \<Longrightarrow>
   describeParametersFrom client r tok =
     Some \<lparr>sends = concat (map (\<lambda>p. map (secretOfParameter r) (Parameters p)) ps), errors = [],
           calls = tok # map DescribeParametersNextToken (butlast ps)\<rparr>"
proof (induction client r tok ps rule: servesParameterPages.induct)
  case (1 client r tok)
  then show ?case by simp
next
  case (2 client r tok p)
  then show ?case by (simp add: describeParametersFrom_Inr then_effects_def)
next
  case (3 client r tok p q ps)
  then show ?case by (auto simp: describeParametersFrom_Inr then_effects_def)
qed

lemma executeChecks_effects_pages:
  assumes "servesSecretPages (SecretsManagerClient api) r None ps"
    and "servesParameterPages (SSMClient api) r None qs"
  shows "\<exists>e. executeChecks_effects api r = Some e \<and> sends e = itemsOfPages r ps qs \<and> errors e = []"
  using listSecretsFrom_pages [OF assms(1)] describeParametersFrom_pages [OF assms(2)]
  by (simp add: executeChecks_effects_def getSecretsManagerSecretsPerRegion_def
      getSSMParametersPerRegion_def itemsOfPages_def then_effects_def)

lemma length_itemsOfPages: "length (itemsOfPages r ps qs) = recordsInPages ps qs"
  by (simp add: itemsOfPages_def recordsInPages_def length_concat comp_def)

lemma size_sum_list_mset:
  fixes f :: "'a \<Rightarrow> 'b multiset"
  shows "size (\<Sum>x\<leftarrow>xs. f x) = (\<Sum>x\<leftarrow>xs. size (f x))"
  by (induction xs) simp_all

text \<open>Once the stop signal is taken, every goroutine has ended and nothing is in flight.\<close>

lemma stopped_facts:
  assumes run: "exec api (start m) ts = Some s" and st: "stopped s"
  shows "\<forall>w\<in>set (workers s). pc w = W_Exit"
    and "map region (workers s) = AWSRegions m"
    and "mset (Secrets (module s)) = mset (Secrets m) + submitted s"
    and "\<forall>w\<in>set (workers s). executeChecks_effects api (region w) = Some (history w)"
proof -
  from run have si: "structure_inv m s" by (rule structure_inv_exec)
  from st have pw: "past_wait (mainpc s)" and td: "todo (mainpc s) = []"
    and la: "launching (mainpc s) = 0"
    by (auto simp: stopped_def)
  from si pw la have "sum_list (map live (workers s)) = 0" by (simp add: structure_inv_def)
  then show ex: "\<forall>w\<in>set (workers s). pc w = W_Exit" by (blast dest: live_zero)
  from si td show "map region (workers s) = AWSRegions m" by (simp add: structure_inv_def)
  from si st have "held (receiver s) = {#}" by (auto simp: structure_inv_def stopped_def)
  with items_inv_exec [OF run] show "mset (Secrets (module s)) = mset (Secrets m) + submitted s"
    by (simp add: items_inv_def)
  from workers_inv_exec [OF run] ex
  show "\<forall>w\<in>set (workers s). executeChecks_effects api (region w) = Some (history w)"
    by (auto simp: workers_inv_def dest: worker_inv_exit(1))
qed

lemma sum_list_cong_set: "(\<And>x. x \<in> set xs \<Longrightarrow> f x = g x) \<Longrightarrow> sum_list (map f xs) = sum_list (map g xs)"
  by (induction xs) simp_all

lemma submitted_regions:
  assumes "\<forall>w\<in>set (workers s). mset (sends (history w)) = f (region w)"
  shows "submitted s = (\<Sum>r\<leftarrow>map region (workers s). f r)"
proof -
  have "submitted s = (\<Sum>w\<leftarrow>workers s. f (region w))"
    unfolding submitted_def using assms by (intro sum_list_cong_set) simp
  then show ?thesis by (simp add: comp_def)
qed

text \<open>
  C1. Completeness. Take any list of regions and any remote side that answers
  every request of both sources successfully (so that each source of each
  region serves finitely many pages). When PrintSecrets has taken the
  receiver's acknowledgment (line 87), \<^verbatim>\<open>m.Secrets\<close> holds what it held at the
  call together with exactly one Secret for each raw record of each page of
  each source of each region, nothing twice and nothing missing; for a module
  that starts with no Secrets its length is the total number of raw records.
\<close>

theorem completeness:
  assumes "exec api (start m) ts = Some s" and "mainpc s = M_Joined"
    and "\<forall>r\<in>set (AWSRegions m).
           servesSecretPages (SecretsManagerClient api) r None (secretPages r) \<and>
           servesParameterPages (SSMClient api) r None (parameterPages r)"
  shows "mset (Secrets (module s)) =
           mset (Secrets m) +
           (\<Sum>r\<leftarrow>AWSRegions m. mset (itemsOfPages r (secretPages r) (parameterPages r))) \<and>
         length (Secrets (module s)) =
           length (Secrets m) +
           (\<Sum>r\<leftarrow>AWSRegions m. recordsInPages (secretPages r) (parameterPages r))"
proof -
  from assms(2) have st: "stopped s" by (simp add: stopped_def)
  note f = stopped_facts [OF assms(1) st]
  have "\<forall>w\<in>set (workers s).
          mset (sends (history w)) =
          mset (itemsOfPages (region w) (secretPages (region w)) (parameterPages (region w)))"
  proof
    fix w assume w: "w \<in> set (workers s)"
    then have "region w \<in> set (AWSRegions m)" using f(2) by (metis image_eqI set_map)
    with assms(3) executeChecks_effects_pages [of api "region w"]
    obtain e where "executeChecks_effects api (region w) = Some e"
      "sends e = itemsOfPages (region w) (secretPages (region w)) (parameterPages (region w))"
      by blast
    with f(4) w show "mset (sends (history w)) =
          mset (itemsOfPages (region w) (secretPages (region w)) (parameterPages (region w)))"
      by auto
  qed
  from submitted_regions [where f = "\<lambda>r. mset (itemsOfPages r (secretPages r) (parameterPages r))", OF this]
  have eq: "mset (Secrets (module s)) =
           mset (Secrets m) +
           (\<Sum>r\<leftarrow>AWSRegions m. mset (itemsOfPages r (secretPages r) (parameterPages r)))"
    using f(2,3) by simp
  from arg_cong [OF eq, of size]
  have "length (Secrets (module s)) =
           length (Secrets m) +
           (\<Sum>r\<leftarrow>AWSRegions m. recordsInPages (secretPages r) (parameterPages r))"
    by (simp add: size_sum_list_mset length_itemsOfPages comp_def)
  with eq show ?thesis by simp
qed

theorem completeness_witness:
  "case exec pagedApis (start (freshModule [''us-east-1''])) pagedSchedule of
     None \<Rightarrow> False
   | Some s \<Rightarrow>
       mainpc s = M_Joined \<and>
       (\<forall>r\<in>set (AWSRegions (freshModule [''us-east-1''])).
          servesSecretPages (SecretsManagerClient pagedApis) r None pagedSecrets \<and>
          servesParameterPages (SSMClient pagedApis) r None pagedParameters) \<and>
       length (Secrets (module s)) = 4"
proof -
  have "map_option mainpc (exec pagedApis (start (freshModule [''us-east-1''])) pagedSchedule)
          = Some M_Joined"
    by code_simp
  then obtain s where run: "exec pagedApis (start (freshModule [''us-east-1''])) pagedSchedule = Some s"
    and joined: "mainpc s = M_Joined"
    by auto
  have pages: "\<forall>r\<in>set (AWSRegions (freshModule [''us-east-1''])).
          servesSecretPages (SecretsManagerClient pagedApis) r None ((\<lambda>r. pagedSecrets) r) \<and>
          servesParameterPages (SSMClient pagedApis) r None ((\<lambda>r. pagedParameters) r)"
    by (simp add: freshModule_def pagedApis_def pagedSecrets_def pagedParameters_def)
  from completeness [OF run joined pages]
  have "length (Secrets (module s)) = 4"
    by (simp add: freshModule_def recordsInPages_def pagedSecrets_def pagedParameters_def)
  with run joined pages show ?thesis by simp
qed

lemma quiet_step:
  assumes "step api s t = Some s'" and "receiver s = R_Ack \<or> receiver s = R_Closed"
  shows "(receiver s' = R_Ack \<or> receiver s' = R_Closed) \<and> Secrets (module s') = Secrets (module s)"
proof (cases t)
  case MainThread
  with assms show ?thesis
    by (auto simp: set_counter_def split: mpc.splits list.splits if_splits)
next
  case (Worker i)
  with assms have "worker_step api i s = Some s'" by simp
  then obtain a p s0 where pf: "perform a s = Some s0"
    and s': "s' = s0\<lparr>workers := (workers s)[i := (workers s ! i)\<lparr>pc := p,
            history := record_action a (history (workers s ! i)),
            stores := record_store a (stores (workers s ! i)),
            listed := listed (workers s ! i) @ listedAt api (region (workers s ! i)) (pc (workers s ! i)),
            described := described (workers s ! i)
              @ describedAt api (region (workers s ! i)) (pc (workers s ! i))\<rparr>]\<rparr>"
    by (rule worker_stepE)
  from pf assms(2) have "receiver s0 = receiver s \<and> Secrets (module s0) = Secrets (module s)"
    by (cases a) (auto simp: set_counter_def split: if_splits)
  with s' assms(2) show ?thesis by auto
next
  case ReceiverThread
  with assms show ?thesis by (auto split: rpc.splits)
qed

lemma quiet_exec:
  "exec api s us = Some s' \<Longrightarrow> receiver s = R_Ack \<or> receiver s = R_Closed \<Longrightarrow>
   Secrets (module s') = Secrets (module s)"
proof (induction us arbitrary: s)
  case Nil
  then show ?case by simp
next
  case (Cons t us)
  from Cons.prems(1) obtain s1 where s1: "step api s t = Some s1" and rest: "exec api s1 us = Some s'"
    by (auto split: option.splits)
  from quiet_step [OF s1 Cons.prems(2)] Cons.IH [OF rest] show ?case by simp
qed

lemma stopped_receiver:
  "structure_inv m s \<Longrightarrow> stopped s \<Longrightarrow> receiver s = R_Ack \<or> receiver s = R_Closed"
  by (auto simp: structure_inv_def stopped_def)

lemma sum_list_const_set:
  "(\<And>x. x \<in> set xs \<Longrightarrow> f x = (c::nat)) \<Longrightarrow> sum_list (map f xs) = length xs * c"
  by (induction xs) simp_all

lemma count_list_other: "x \<noteq> y \<Longrightarrow> count_list (replicate n x) y = 0"
  by (induction n) simp_all

text \<open>
  C2. Shutdown ordering. In every run, once \<^verbatim>\<open>Receiver\<close> has taken the stop
  signal (and so also when main has taken its acknowledgment), every goroutine
  has ended and every value any of them sent is in \<^verbatim>\<open>m.Secrets\<close>: with each of
  the N goroutines having sent M values, \<^verbatim>\<open>m.Secrets\<close> has grown by N times M.
  From then on no step of any goroutine changes \<^verbatim>\<open>m.Secrets\<close>.
\<close>

theorem shutdown_ordering:
  assumes "exec api (start m) ts = Some s" and "stopped s"
  shows "(\<forall>w\<in>set (workers s). pc w = W_Exit) \<and>
         length (workers s) = length (AWSRegions m) \<and>
         mset (Secrets (module s)) = mset (Secrets m) + submitted s \<and>
         (\<forall>M. (\<forall>w\<in>set (workers s). length (sends (history w)) = M) \<longrightarrow>
              length (Secrets (module s)) = length (Secrets m) + length (AWSRegions m) * M) \<and>
         (\<forall>us s'. exec api s us = Some s' \<longrightarrow> Secrets (module s') = Secrets (module s))"
proof -
  note f = stopped_facts [OF assms]
  from f(2) have len: "length (workers s) = length (AWSRegions m)" by (metis length_map)
  have nm: "length (Secrets (module s)) = length (Secrets m) + length (AWSRegions m) * M"
    if "\<forall>w\<in>set (workers s). length (sends (history w)) = M" for M
  proof -
    from arg_cong [OF f(3), of size]
    have "length (Secrets (module s)) =
            length (Secrets m) + (\<Sum>w\<leftarrow>workers s. length (sends (history w)))"
      by (simp add: submitted_def size_sum_list_mset comp_def)
    also have "(\<Sum>w\<leftarrow>workers s. length (sends (history w))) = length (workers s) * M"
      using that by (intro sum_list_const_set) simp
    finally show ?thesis using len by simp
  qed
  from stopped_receiver [OF structure_inv_exec [OF assms(1)] assms(2)]
  have "Secrets (module s') = Secrets (module s)" if "exec api s us = Some s'" for us s'
    using quiet_exec [OF that] by simp
  with f(1,3) len nm show ?thesis by blast
qed

theorem shutdown_ordering_witness:
  "case exec scenarioApis (start scenarioModule) scenarioSchedule of
     None \<Rightarrow> False
   | Some s \<Rightarrow>
       stopped s \<and> list_all (\<lambda>w. length (sends (history w)) = 2) (workers s) \<and>
       length (AWSRegions scenarioModule) = 2 \<and> length (Secrets (module s)) = 2 * 2"
proof -
  have "map_option (\<lambda>s. (mainpc s, map (\<lambda>w. length (sends (history w))) (workers s)))
          (exec scenarioApis (start scenarioModule) scenarioSchedule) = Some (M_Joined, [2, 2])"
    by code_simp
  then obtain s where run: "exec scenarioApis (start scenarioModule) scenarioSchedule = Some s"
    and joined: "mainpc s = M_Joined"
    and sent: "map (\<lambda>w. length (sends (history w))) (workers s) = [2, 2]"
    by auto
  from joined have st: "stopped s" by (simp add: stopped_def)
  from sent have all: "\<forall>w\<in>set (workers s). length (sends (history w)) = 2"
    by (cases "workers s") (auto simp: Cons_eq_map_conv)
  from shutdown_ordering [OF run st] all
  have "length (Secrets (module s)) =
          length (Secrets scenarioModule) + length (AWSRegions scenarioModule) * 2"
    by blast
  then have "length (Secrets (module s)) = 2 * 2"
    by (simp add: scenarioModule_def freshModule_def)
  with run st all show ?thesis
    by (simp add: list_all_iff scenarioModule_def freshModule_def)
qed

subsection \<open>The pagination loops by themselves\<close>

text \<open>
  C6. Pagination termination. If the remote side answers the requests of a
  source, starting without a token, with finitely many pages of which only the
  last carries no token, then the loop of that source returns after exactly as
  many requests as there are pages, and the requests are made one after the
  other: the first without a token, each later one with the token of the page
  before it. This holds for either source.
\<close>

theorem pagination_terminates:
  "(servesSecretPages client r None ps \<longrightarrow>
      (\<exists>e. getSecretsManagerSecretsPerRegion client r = Some e \<and>
           length (calls e) = length ps \<and>
           calls e = None # map ListSecretsNextToken (butlast ps))) \<and>
   (servesParameterPages client' r None qs \<longrightarrow>
      (\<exists>e. getSSMParametersPerRegion client' r = Some e \<and>
           length (calls e) = length qs \<and>
           calls e = None # map DescribeParametersNextToken (butlast qs)))"
proof -
  have "ps \<noteq> []" if "servesSecretPages client r None ps"
    using that by (cases ps) simp_all
  moreover have "qs \<noteq> []" if "servesParameterPages client' r None qs"
    using that by (cases qs) simp_all
  ultimately show ?thesis
    by (auto simp: getSecretsManagerSecretsPerRegion_def getSSMParametersPerRegion_def
        listSecretsFrom_pages describeParametersFrom_pages)
qed

theorem pagination_terminates_witness:
  "servesSecretPages (SecretsManagerClient pagedApis) ''us-east-1'' None pagedSecrets \<and>
   servesParameterPages (SSMClient pagedApis) ''us-east-1'' None pagedParameters \<and>
   map_option calls (getSecretsManagerSecretsPerRegion (SecretsManagerClient pagedApis) ''us-east-1'')
     = Some [None, Some ''page2''] \<and>
   map_option calls (getSSMParametersPerRegion (SSMClient pagedApis) ''us-east-1'') = Some [None]"
proof -
  have a: "servesSecretPages (SecretsManagerClient pagedApis) ''us-east-1'' None pagedSecrets"
    by (simp add: pagedApis_def pagedSecrets_def)
  have b: "servesParameterPages (SSMClient pagedApis) ''us-east-1'' None pagedParameters"
    by (simp add: pagedApis_def pagedParameters_def)
  from a b pagination_terminates [of "SecretsManagerClient pagedApis" "''us-east-1''" pagedSecrets
      "SSMClient pagedApis" pagedParameters]
  show ?thesis by (auto simp: pagedSecrets_def pagedParameters_def)
qed

lemma secretOfEntry_fields:
  "secretOfEntry r x =
     \<lparr>AWSService = ''SecretsManager'', Region = r,
       Name = (case secretName x of None \<Rightarrow> [] | Some n \<Rightarrow> n),
       Description = (case secretDescription x of None \<Rightarrow> [] | Some d \<Rightarrow> d)\<rparr>"
  by (simp add: secretOfEntry_def ToString_def split: option.splits)

lemma secretOfParameter_fields:
  "secretOfParameter r x =
     \<lparr>AWSService = ''SSM'', Region = r,
       Name = (case parameterName x of None \<Rightarrow> [] | Some n \<Rightarrow> n),
       Description = (case parameterDescription x of None \<Rightarrow> [] | Some d \<Rightarrow> d)\<rparr>"
  by (simp add: secretOfParameter_def ToString_def split: option.splits)

lemma listSecretsFrom_sends:
  "listSecretsFrom client r tok = Some e \<Longrightarrow>
   sends e = concat (map (\<lambda>t. case client r t of Inl err \<Rightarrow> []
                          | Inr out \<Rightarrow> map (secretOfEntry r) (SecretList out)) (calls e))"
proof (induction rule: listSecretsFrom.raw_induct [rotated 1, consumes 1])
  case (1 f client r tok e)
  show ?case
  proof (cases "client r tok")
    case (Inl err)
    with 1(2) show ?thesis by auto
  next
    case (Inr out)
    show ?thesis
    proof (cases "ListSecretsNextToken out")
      case None
      with Inr 1(2) show ?thesis by auto
    next
      case (Some t)
      with Inr 1(2) obtain rest where rest: "f client r (Some t) = Some rest"
        and e: "e = then_effects \<lparr>sends = map (secretOfEntry r) (SecretList out), errors = [],
                                  calls = [tok]\<rparr> rest"
        by (auto split: Option.bind_splits)
      from 1(1) [OF rest] e Inr show ?thesis by (auto simp: then_effects_def)
    qed
  qed
qed

lemma describeParametersFrom_sends:
  "describeParametersFrom client r tok = Some e \<Longrightarrow>
   sends e = concat (map (\<lambda>t. case client r t of Inl err \<Rightarrow> []
                          | Inr out \<Rightarrow> map (secretOfParameter r) (Parameters out)) (calls e))"
proof (induction rule: describeParametersFrom.raw_induct [rotated 1, consumes 1])
  case (1 f client r tok e)
  show ?case
  proof (cases "client r tok")
    case (Inl err)
    with 1(2) show ?thesis by auto
  next
    case (Inr out)
    show ?thesis
    proof (cases "DescribeParametersNextToken out")
      case None
      with Inr 1(2) show ?thesis by auto
    next
      case (Some t)
      with Inr 1(2) obtain rest where rest: "f client r (Some t) = Some rest"
        and e: "e = then_effects \<lparr>sends = map (secretOfParameter r) (Parameters out), errors = [],
                                  calls = [tok]\<rparr> rest"
        by (auto split: Option.bind_splits)
      from 1(1) [OF rest] e Inr show ?thesis by (auto simp: then_effects_def)
    qed
  qed
qed

lemma executeChecks_step_waiting:
  "executeChecks_step api c r p = Some (a, p') \<Longrightarrow>
   sends (record_action a h) @ waiting r p' =
     sends h @ waiting r p @ map (secretOfEntry r) (listedAt api r p)
       @ map (secretOfParameter r) (describedAt api r p) \<and>
   (listing p' \<longrightarrow> listing p)"
  by (induction api c r p rule: executeChecks_step.induct) (auto split: sum.splits if_splits)

lemma listing_listedAt:
  "listing p \<Longrightarrow> describedAt api r p = []" "\<not> listing p \<Longrightarrow> listedAt api r p = []"
  by (cases p; simp)+

lemma delivered_step:
  assumes ex: "executeChecks_step api c (region w) (pc w) = Some (a, p')" and d: "delivered w"
  shows "delivered (w\<lparr>pc := p', history := record_action a (history w), stores := st,
           listed := listed w @ listedAt api (region w) (pc w),
           described := described w @ describedAt api (region w) (pc w)\<rparr>)"
proof -
  note stp = executeChecks_step_waiting [OF ex, of "history w"]
  from d have eq: "sends (history w) @ waiting (region w) (pc w) =
       map (secretOfEntry (region w)) (listed w) @
       map (secretOfParameter (region w)) (described w)"
    and ph: "listing (pc w) \<Longrightarrow> described w = []"
    by (simp_all add: delivered_def)
  show ?thesis
  proof (cases "listing (pc w)")
    case True
    with ph listing_listedAt(1) [of "pc w" api "region w"]
    have "described w = []" "describedAt api (region w) (pc w) = []" by simp_all
    with stp eq show ?thesis by (simp add: delivered_def)
  next
    case False
    with listing_listedAt(2) [of "pc w" api "region w"] stp
    have "listedAt api (region w) (pc w) = []" "\<not> listing p'" by auto
    with stp eq show ?thesis by (simp add: delivered_def)
  qed
qed

lemma delivered_inv_start: "delivered_inv (start m)"
  by (simp add: delivered_inv_def start_def)

lemma delivered_inv_main:
  "delivered_inv s \<Longrightarrow> main_step s = Some s' \<Longrightarrow> delivered_inv s'"
  by (auto simp: delivered_inv_def delivered_def set_counter_def no_effects_def
      split: mpc.splits list.splits if_splits)

lemma delivered_inv_receiver:
  "delivered_inv s \<Longrightarrow> receiver_step s = Some s' \<Longrightarrow> delivered_inv s'"
  by (auto simp: delivered_inv_def split: rpc.splits)

lemma delivered_inv_worker:
  assumes inv: "delivered_inv s" and st: "worker_step api i s = Some s'"
  shows "delivered_inv s'"
proof -
  from st obtain a p s0 where i: "i < length (workers s)"
    and ex: "executeChecks_step api (counter s) (region (workers s ! i)) (pc (workers s ! i)) = Some (a, p)"
    and pf: "perform a s = Some s0"
    and s': "s' = s0\<lparr>workers := (workers s)[i := (workers s ! i)\<lparr>pc := p,
            history := record_action a (history (workers s ! i)),
            stores := record_store a (stores (workers s ! i)),
            listed := listed (workers s ! i) @ listedAt api (region (workers s ! i)) (pc (workers s ! i)),
            described := described (workers s ! i)
              @ describedAt api (region (workers s ! i)) (pc (workers s ! i))\<rparr>]\<rparr>"
    by (rule worker_stepE)
  from inv i have "delivered (workers s ! i)" by (simp add: delivered_inv_def)
  from delivered_step [OF ex this, of "record_store a (stores (workers s ! i))"] inv s'
  show ?thesis
    using set_update_subset_insert [of "workers s" i]
    by (auto simp: delivered_inv_def)
qed

lemma delivered_inv_step:
  "delivered_inv s \<Longrightarrow> step api s t = Some s' \<Longrightarrow> delivered_inv s'"
  by (cases t) (auto intro: delivered_inv_main delivered_inv_worker delivered_inv_receiver)

lemma delivered_inv_exec:
  "exec api (start m) ts = Some s \<Longrightarrow> delivered_inv s"
  by (erule exec_invariant [where P = delivered_inv])
     (auto intro: delivered_inv_start delivered_inv_step)

text \<open>
  C7. One item per raw record. Take any run of the goroutines, up to any point
  of it, whether or not the loops ever return. What a goroutine has sent so
  far, followed by the items of the records of its last page that it has not
  yet sent, is exactly one Secret for each raw record the remote side has
  returned to it, in the order returned, first those of SecretsManager, then
  those of SSM: its service is the name of the source, its region the region of
  the goroutine, its name the record's name, and its description the record's
  description, or the empty string where the record has none. When PrintSecrets
  has taken the receiver's acknowledgment, \<^verbatim>\<open>m.Secrets\<close> holds what it held at the
  call and exactly these items. For a loop taken by itself that returns, the
  values sent are, request by request, one such Secret for each record of the
  page the request returned, and nothing for a request that failed; in
  particular the first values sent after a successful request are the items of
  its page.
\<close>

theorem item_per_record:
  "(exec api (start m) ts = Some s \<longrightarrow>
      (\<forall>w\<in>set (workers s).
         sends (history w) @ waiting (region w) (pc w) =
           map (\<lambda>x. \<lparr>AWSService = ''SecretsManager'', Region = region w,
                      Name = (case secretName x of None \<Rightarrow> [] | Some n \<Rightarrow> n),
                      Description = (case secretDescription x of None \<Rightarrow> [] | Some d \<Rightarrow> d)\<rparr>)
               (listed w) @
           map (\<lambda>x. \<lparr>AWSService = ''SSM'', Region = region w,
                      Name = (case parameterName x of None \<Rightarrow> [] | Some n \<Rightarrow> n),
                      Description = (case parameterDescription x of None \<Rightarrow> [] | Some d \<Rightarrow> d)\<rparr>)
               (described w)) \<and>
      (mainpc s = M_Joined \<longrightarrow>
         mset (Secrets (module s)) =
           mset (Secrets m) +
           (\<Sum>w\<leftarrow>workers s.
              mset (map (\<lambda>x. \<lparr>AWSService = ''SecretsManager'', Region = region w,
                      Name = (case secretName x of None \<Rightarrow> [] | Some n \<Rightarrow> n),
                      Description = (case secretDescription x of None \<Rightarrow> [] | Some d \<Rightarrow> d)\<rparr>)
                    (listed w)) +
              mset (map (\<lambda>x. \<lparr>AWSService = ''SSM'', Region = region w,
                      Name = (case parameterName x of None \<Rightarrow> [] | Some n \<Rightarrow> n),
                      Description = (case parameterDescription x of None \<Rightarrow> [] | Some d \<Rightarrow> d)\<rparr>)
                    (described w))))) \<and>
   (listSecretsFrom client r tok = Some e \<longrightarrow>
      sends e =
        concat (map (\<lambda>t. case client r t of
                       Inl err \<Rightarrow> []
                     | Inr page \<Rightarrow>
                         map (\<lambda>x. \<lparr>AWSService = ''SecretsManager'', Region = r,
                                Name = (case secretName x of None \<Rightarrow> [] | Some n \<Rightarrow> n),
                                Description =
                                  (case secretDescription x of None \<Rightarrow> [] | Some d \<Rightarrow> d)\<rparr>)
                             (SecretList page))
                (calls e))) \<and>
   (describeParametersFrom client' r tok' = Some e' \<longrightarrow>
      sends e' =
        concat (map (\<lambda>t. case client' r t of
                       Inl err \<Rightarrow> []
                     | Inr page \<Rightarrow>
                         map (\<lambda>x. \<lparr>AWSService = ''SSM'', Region = r,
                                Name = (case parameterName x of None \<Rightarrow> [] | Some n \<Rightarrow> n),
                                Description =
                                  (case parameterDescription x of None \<Rightarrow> [] | Some d \<Rightarrow> d)\<rparr>)
                             (Parameters page))
                (calls e'))) \<and>
   (client r tok = Inr out \<and> listSecretsFrom client r tok = Some e \<longrightarrow>
      take (length (SecretList out)) (sends e) =
        map (\<lambda>x. \<lparr>AWSService = ''SecretsManager'', Region = r,
                   Name = (case secretName x of None \<Rightarrow> [] | Some n \<Rightarrow> n),
                   Description = (case secretDescription x of None \<Rightarrow> [] | Some d \<Rightarrow> d)\<rparr>)
            (SecretList out)) \<and>
   (client' r tok' = Inr out' \<and> describeParametersFrom client' r tok' = Some e' \<longrightarrow>
      take (length (Parameters out')) (sends e') =
        map (\<lambda>x. \<lparr>AWSService = ''SSM'', Region = r,
                   Name = (case parameterName x of None \<Rightarrow> [] | Some n \<Rightarrow> n),
                   Description = (case parameterDescription x of None \<Rightarrow> [] | Some d \<Rightarrow> d)\<rparr>)
            (Parameters out'))"
proof -
  have sent: "\<forall>w\<in>set (workers s).
      sends (history w) @ waiting (region w) (pc w) =
        map (secretOfEntry (region w)) (listed w) @ map (secretOfParameter (region w)) (described w)"
    if "exec api (start m) ts = Some s"
    using delivered_inv_exec [OF that] by (simp add: delivered_inv_def delivered_def)
  have kept: "mset (Secrets (module s)) =
      mset (Secrets m) +
      (\<Sum>w\<leftarrow>workers s. mset (map (secretOfEntry (region w)) (listed w)) +
                        mset (map (secretOfParameter (region w)) (described w)))"
    if run: "exec api (start m) ts = Some s" and joined: "mainpc s = M_Joined"
  proof -
    from joined have st: "stopped s" by (simp add: stopped_def)
    note f = stopped_facts [OF run st]
    have "mset (sends (history w)) =
        mset (map (secretOfEntry (region w)) (listed w)) +
        mset (map (secretOfParameter (region w)) (described w))"
      if "w \<in> set (workers s)" for w
    proof -
      from that f(1) have "waiting (region w) (pc w) = []" by simp
      with sent [OF run] that
      have "sends (history w) = map (secretOfEntry (region w)) (listed w) @
              map (secretOfParameter (region w)) (described w)"
        by fastforce
      then show ?thesis by simp
    qed
    then have "submitted s =
        (\<Sum>w\<leftarrow>workers s. mset (map (secretOfEntry (region w)) (listed w)) +
                          mset (map (secretOfParameter (region w)) (described w)))"
      unfolding submitted_def by (intro sum_list_cong_set)
    with f(3) show ?thesis by simp
  qed
  have first: "take (length (SecretList out)) (sends e) = map (secretOfEntry r) (SecretList out)"
    if "client r tok = Inr out" "listSecretsFrom client r tok = Some e"
  proof (cases "ListSecretsNextToken out")
    case None
    with that show ?thesis by (auto simp: listSecretsFrom_Inr)
  next
    case (Some t)
    with that show ?thesis
      by (cases "listSecretsFrom client r (Some t)")
         (auto simp: listSecretsFrom_Inr then_effects_def)
  qed
  have first': "take (length (Parameters out')) (sends e') = map (secretOfParameter r) (Parameters out')"
    if "client' r tok' = Inr out'" "describeParametersFrom client' r tok' = Some e'"
  proof (cases "DescribeParametersNextToken out'")
    case None
    with that show ?thesis by (auto simp: describeParametersFrom_Inr)
  next
    case (Some t)
    with that show ?thesis
      by (cases "describeParametersFrom client' r (Some t)")
         (auto simp: describeParametersFrom_Inr then_effects_def)
  qed
  have all: "sends e = concat (map (\<lambda>t. case client r t of Inl err \<Rightarrow> []
                          | Inr out \<Rightarrow> map (secretOfEntry r) (SecretList out)) (calls e))"
    if "listSecretsFrom client r tok = Some e"
    using that by (rule listSecretsFrom_sends)
  have all': "sends e' = concat (map (\<lambda>t. case client' r t of Inl err \<Rightarrow> []
                          | Inr out \<Rightarrow> map (secretOfParameter r) (Parameters out)) (calls e'))"
    if "describeParametersFrom client' r tok' = Some e'"
    using that by (rule describeParametersFrom_sends)
  have fs: "secretOfEntry r = (\<lambda>x. \<lparr>AWSService = ''SecretsManager'', Region = r,
                      Name = (case secretName x of None \<Rightarrow> [] | Some n \<Rightarrow> n),
                      Description = (case secretDescription x of None \<Rightarrow> [] | Some d \<Rightarrow> d)\<rparr>)"
    and fp: "secretOfParameter r = (\<lambda>x. \<lparr>AWSService = ''SSM'', Region = r,
                      Name = (case parameterName x of None \<Rightarrow> [] | Some n \<Rightarrow> n),
                      Description = (case parameterDescription x of None \<Rightarrow> [] | Some d \<Rightarrow> d)\<rparr>)"
    for r
    by (rule ext, rule secretOfEntry_fields, rule ext, rule secretOfParameter_fields)
  from sent kept
  have A: "exec api (start m) ts = Some s \<longrightarrow>
      (\<forall>w\<in>set (workers s).
         sends (history w) @ waiting (region w) (pc w) =
           map (secretOfEntry (region w)) (listed w) @
           map (secretOfParameter (region w)) (described w)) \<and>
      (mainpc s = M_Joined \<longrightarrow>
         mset (Secrets (module s)) =
           mset (Secrets m) +
           (\<Sum>w\<leftarrow>workers s. mset (map (secretOfEntry (region w)) (listed w)) +
                             mset (map (secretOfParameter (region w)) (described w))))"
    by blast
  from all
  have B: "listSecretsFrom client r tok = Some e \<longrightarrow>
      sends e = concat (map (\<lambda>t. case client r t of Inl err \<Rightarrow> []
                          | Inr out \<Rightarrow> map (secretOfEntry r) (SecretList out)) (calls e))"
    by (rule impI)
  from all'
  have C: "describeParametersFrom client' r tok' = Some e' \<longrightarrow>
      sends e' = concat (map (\<lambda>t. case client' r t of Inl err \<Rightarrow> []
                          | Inr out \<Rightarrow> map (secretOfParameter r) (Parameters out)) (calls e'))"
    by (rule impI)
  from first
  have D: "client r tok = Inr out \<and> listSecretsFrom client r tok = Some e \<longrightarrow>
      take (length (SecretList out)) (sends e) = map (secretOfEntry r) (SecretList out)"
    by blast
  from first'
  have E: "client' r tok' = Inr out' \<and> describeParametersFrom client' r tok' = Some e' \<longrightarrow>
      take (length (Parameters out')) (sends e') = map (secretOfParameter r) (Parameters out')"
    by blast
  from A B C D E show ?thesis
    unfolding fs fp by - (intro conjI, assumption+)
qed

theorem item_per_record_witness:
  "case exec pagedApis (start (freshModule [''us-east-1''])) pagedSchedule of
     None \<Rightarrow> False
   | Some s \<Rightarrow>
       mainpc s = M_Joined \<and>
       map listed (workers s) =
         [[SecretListEntry (Some ''db-password'') (Some ''main database''),
           SecretListEntry (Some ''api-key'') None, SecretListEntry (Some ''token'') None]] \<and>
       map described (workers s) = [[ParameterMetadata (Some ''/app/config'') (Some ''settings'')]] \<and>
       map (\<lambda>w. sends (history w)) (workers s) =
         [[\<lparr>AWSService = ''SecretsManager'', Region = ''us-east-1'', Name = ''db-password'',
            Description = ''main database''\<rparr>,
           \<lparr>AWSService = ''SecretsManager'', Region = ''us-east-1'', Name = ''api-key'',
            Description = []\<rparr>,
           \<lparr>AWSService = ''SecretsManager'', Region = ''us-east-1'', Name = ''token'',
            Description = []\<rparr>,
           \<lparr>AWSService = ''SSM'', Region = ''us-east-1'', Name = ''/app/config'',
            Description = ''settings''\<rparr>]] \<and>
       mset (Secrets (module s)) =
         mset [\<lparr>AWSService = ''SecretsManager'', Region = ''us-east-1'', Name = ''db-password'',
                 Description = ''main database''\<rparr>,
               \<lparr>AWSService = ''SecretsManager'', Region = ''us-east-1'', Name = ''api-key'',
                 Description = []\<rparr>,
               \<lparr>AWSService = ''SecretsManager'', Region = ''us-east-1'', Name = ''token'',
                 Description = []\<rparr>,
               \<lparr>AWSService = ''SSM'', Region = ''us-east-1'', Name = ''/app/config'',
                 Description = ''settings''\<rparr>] \<and>
       SecretsManagerClient pagedApis ''us-east-1'' None = Inr (pagedSecrets ! 0) \<and>
       SSMClient pagedApis ''us-east-1'' None = Inr (pagedParameters ! 0) \<and>
       map_option calls (listSecretsFrom (SecretsManagerClient pagedApis) ''us-east-1'' None) =
         Some [None, Some ''page2''] \<and>
       map_option sends (listSecretsFrom (SecretsManagerClient pagedApis) ''us-east-1'' None) =
         Some [\<lparr>AWSService = ''SecretsManager'', Region = ''us-east-1'', Name = ''db-password'',
                Description = ''main database''\<rparr>,
               \<lparr>AWSService = ''SecretsManager'', Region = ''us-east-1'', Name = ''api-key'',
                Description = []\<rparr>,
               \<lparr>AWSService = ''SecretsManager'', Region = ''us-east-1'', Name = ''token'',
                Description = []\<rparr>] \<and>
       map_option (take 2 \<circ> sends)
           (listSecretsFrom (SecretsManagerClient pagedApis) ''us-east-1'' None) =
         Some [\<lparr>AWSService = ''SecretsManager'', Region = ''us-east-1'', Name = ''db-password'',
                Description = ''main database''\<rparr>,
               \<lparr>AWSService = ''SecretsManager'', Region = ''us-east-1'', Name = ''api-key'',
                Description = []\<rparr>] \<and>
       map_option sends (describeParametersFrom (SSMClient pagedApis) ''us-east-1'' None) =
         Some [\<lparr>AWSService = ''SSM'', Region = ''us-east-1'', Name = ''/app/config'',
                Description = ''settings''\<rparr>]"
proof -
  have "map_option (\<lambda>s. (mainpc s, map region (workers s), map pc (workers s),
            map listed (workers s), map described (workers s)))
          (exec pagedApis (start (freshModule [''us-east-1''])) pagedSchedule)
        = Some (M_Joined, [''us-east-1''], [W_Exit],
            [[SecretListEntry (Some ''db-password'') (Some ''main database''),
              SecretListEntry (Some ''api-key'') None, SecretListEntry (Some ''token'') None]],
            [[ParameterMetadata (Some ''/app/config'') (Some ''settings'')]])"
    by code_simp
  then obtain s where run: "exec pagedApis (start (freshModule [''us-east-1''])) pagedSchedule = Some s"
    and joined: "mainpc s = M_Joined"
    and rs: "map region (workers s) = [''us-east-1'']"
    and ps: "map pc (workers s) = [W_Exit]"
    and ls: "map listed (workers s) =
         [[SecretListEntry (Some ''db-password'') (Some ''main database''),
           SecretListEntry (Some ''api-key'') None, SecretListEntry (Some ''token'') None]]"
    and ds: "map described (workers s) = [[ParameterMetadata (Some ''/app/config'') (Some ''settings'')]]"
    by auto
  from rs ps ls ds obtain w where ws: "workers s = [w]" and w: "region w = ''us-east-1''"
    "pc w = W_Exit"
    "listed w = [SecretListEntry (Some ''db-password'') (Some ''main database''),
           SecretListEntry (Some ''api-key'') None, SecretListEntry (Some ''token'') None]"
    "described w = [ParameterMetadata (Some ''/app/config'') (Some ''settings'')]"
    by (cases "workers s") auto
  have a: "SecretsManagerClient pagedApis ''us-east-1'' None = Inr (pagedSecrets ! 0)"
    and b: "SSMClient pagedApis ''us-east-1'' None = Inr (pagedParameters ! 0)"
    by (simp_all add: pagedApis_def)
  obtain e where e: "listSecretsFrom (SecretsManagerClient pagedApis) ''us-east-1'' None = Some e"
    and ce: "calls e = [None, Some ''page2'']"
    by (simp add: pagedApis_def pagedSecrets_def listSecretsFrom_Inr then_effects_def)
  obtain e' where e': "describeParametersFrom (SSMClient pagedApis) ''us-east-1'' None = Some e'"
    and ce': "calls e' = [None]"
    by (simp add: pagedApis_def pagedParameters_def describeParametersFrom_Inr)
  note t = item_per_record [where api = pagedApis and m = "freshModule [''us-east-1'']"
      and ts = pagedSchedule and s = s and client = "SecretsManagerClient pagedApis"
      and r = "''us-east-1''" and tok = None and e = e and out = "pagedSecrets ! 0"
      and client' = "SSMClient pagedApis" and tok' = None and e' = e'
      and out' = "pagedParameters ! 0"]
  from t [THEN conjunct1] run
  have sent: "\<forall>w\<in>set (workers s).
         sends (history w) @ waiting (region w) (pc w) =
           map (\<lambda>x. \<lparr>AWSService = ''SecretsManager'', Region = region w,
                      Name = (case secretName x of None \<Rightarrow> [] | Some n \<Rightarrow> n),
                      Description = (case secretDescription x of None \<Rightarrow> [] | Some d \<Rightarrow> d)\<rparr>)
               (listed w) @
           map (\<lambda>x. \<lparr>AWSService = ''SSM'', Region = region w,
                      Name = (case parameterName x of None \<Rightarrow> [] | Some n \<Rightarrow> n),
                      Description = (case parameterDescription x of None \<Rightarrow> [] | Some d \<Rightarrow> d)\<rparr>)
               (described w)"
    by blast
  with ws w have sw: "sends (history w) =
         [\<lparr>AWSService = ''SecretsManager'', Region = ''us-east-1'', Name = ''db-password'',
            Description = ''main database''\<rparr>,
           \<lparr>AWSService = ''SecretsManager'', Region = ''us-east-1'', Name = ''api-key'',
            Description = []\<rparr>,
           \<lparr>AWSService = ''SecretsManager'', Region = ''us-east-1'', Name = ''token'',
            Description = []\<rparr>,
           \<lparr>AWSService = ''SSM'', Region = ''us-east-1'', Name = ''/app/config'',
            Description = ''settings''\<rparr>]"
    by simp
  from t [THEN conjunct1] run joined ws w
  have kept: "mset (Secrets (module s)) =
         mset [\<lparr>AWSService = ''SecretsManager'', Region = ''us-east-1'', Name = ''db-password'',
                 Description = ''main database''\<rparr>,
               \<lparr>AWSService = ''SecretsManager'', Region = ''us-east-1'', Name = ''api-key'',
                 Description = []\<rparr>,
               \<lparr>AWSService = ''SecretsManager'', Region = ''us-east-1'', Name = ''token'',
                 Description = []\<rparr>,
               \<lparr>AWSService = ''SSM'', Region = ''us-east-1'', Name = ''/app/config'',
                 Description = ''settings''\<rparr>]"
    by (simp add: freshModule_def)
  from t [THEN conjunct2, THEN conjunct1] e ce
  have se: "sends e =
         [\<lparr>AWSService = ''SecretsManager'', Region = ''us-east-1'', Name = ''db-password'',
                Description = ''main database''\<rparr>,
               \<lparr>AWSService = ''SecretsManager'', Region = ''us-east-1'', Name = ''api-key'',
                Description = []\<rparr>,
               \<lparr>AWSService = ''SecretsManager'', Region = ''us-east-1'', Name = ''token'',
                Description = []\<rparr>]"
    by (simp add: pagedApis_def pagedSecrets_def)
  from t [THEN conjunct2, THEN conjunct2, THEN conjunct1] e' ce'
  have se': "sends e' =
         [\<lparr>AWSService = ''SSM'', Region = ''us-east-1'', Name = ''/app/config'',
                Description = ''settings''\<rparr>]"
    by (simp add: pagedApis_def pagedParameters_def)
  from t [THEN conjunct2, THEN conjunct2, THEN conjunct2, THEN conjunct1] a e
  have fe: "take 2 (sends e) =
         [\<lparr>AWSService = ''SecretsManager'', Region = ''us-east-1'', Name = ''db-password'',
                Description = ''main database''\<rparr>,
               \<lparr>AWSService = ''SecretsManager'', Region = ''us-east-1'', Name = ''api-key'',
                Description = []\<rparr>]"
    by (simp add: pagedSecrets_def numeral_2_eq_2)
  from run joined ls ds ws sw kept a b e ce se fe e' se' show ?thesis by simp
qed

subsection \<open>Loot file, profile and report\<close>

lemma executeChecks_step_send:
  "executeChecks_step api c r p = Some (Send data, p') \<Longrightarrow> knownService data"
  by (induction api c r p rule: executeChecks_step.induct)
     (auto simp: knownService_def secretOfEntry_def secretOfParameter_def
       split: sum.splits if_splits)

lemma services_inv_step:
  assumes "services_inv s" and "step api s t = Some s'"
  shows "services_inv s'"
proof (cases t)
  case MainThread
  with assms show ?thesis
    by (auto simp: services_inv_def set_counter_def split: mpc.splits list.splits if_splits)
next
  case (Worker i)
  with assms have "worker_step api i s = Some s'" by simp
  then obtain a p s0 where
    ex: "executeChecks_step api (counter s) (region (workers s ! i)) (pc (workers s ! i)) = Some (a, p)"
    and pf: "perform a s = Some s0"
    and s': "s' = s0\<lparr>workers := (workers s)[i := (workers s ! i)\<lparr>pc := p,
            history := record_action a (history (workers s ! i)),
            stores := record_store a (stores (workers s ! i)),
            listed := listed (workers s ! i) @ listedAt api (region (workers s ! i)) (pc (workers s ! i)),
            described := described (workers s ! i)
              @ describedAt api (region (workers s ! i)) (pc (workers s ! i))\<rparr>]\<rparr>"
    by (rule worker_stepE)
  from pf assms(1) executeChecks_step_send [of api "counter s" _ _ _ p] ex
  have "services_inv s0"
    by (cases a) (auto simp: services_inv_def set_counter_def split: if_splits)
  with s' show ?thesis by (simp add: services_inv_def)
next
  case ReceiverThread
  with assms show ?thesis by (auto simp: services_inv_def split: rpc.splits)
qed

lemma services_inv_exec:
  assumes "exec api (start m) ts = Some s" and "list_all knownService (Secrets m)"
  shows "services_inv s"
proof (rule exec_invariant [where P = services_inv, OF assms(1)])
  show "services_inv (start m)" using assms(2) by (simp add: services_inv_def start_def)
qed (rule services_inv_step)

lemma untouched_step:
  assumes "untouched m s" and "step api s t = Some s'"
  shows "untouched m s'"
proof (cases t)
  case MainThread
  with assms show ?thesis
    by (auto simp: untouched_def set_counter_def split: mpc.splits list.splits if_splits)
next
  case (Worker i)
  with assms have "worker_step api i s = Some s'" by simp
  then obtain a p s0 where pf: "perform a s = Some s0"
    and s': "s' = s0\<lparr>workers := (workers s)[i := (workers s ! i)\<lparr>pc := p,
            history := record_action a (history (workers s ! i)),
            stores := record_store a (stores (workers s ! i)),
            listed := listed (workers s ! i) @ listedAt api (region (workers s ! i)) (pc (workers s ! i)),
            described := described (workers s ! i)
              @ describedAt api (region (workers s ! i)) (pc (workers s ! i))\<rparr>]\<rparr>"
    by (rule worker_stepE)
  from pf assms(1) have "untouched m s0"
    by (cases a) (auto simp: untouched_def set_counter_def split: if_splits)
  with s' show ?thesis by (simp add: untouched_def)
next
  case ReceiverThread
  with assms show ?thesis by (auto simp: untouched_def split: rpc.splits)
qed

lemma untouched_exec:
  assumes "exec api (start m) ts = Some s"
  shows "untouched m s"
proof (rule exec_invariant [where P = "untouched m", OF assms])
  show "untouched m (start m)" by (simp add: untouched_def start_def)
qed (rule untouched_step)

lemma lootAppend_known:
  "knownService secret \<Longrightarrow> lootAppend out secret = out @ lootCommand secret"
  by (auto simp: lootAppend_def lootCommand_def knownService_def Let_def)

lemma foldl_lootAppend:
  "list_all knownService secrets \<Longrightarrow>
   foldl lootAppend out secrets = out @ concat (map lootCommand secrets)"
  by (induction secrets arbitrary: out) (simp_all add: lootAppend_known)

lemma logError_frame [simp]:
  "Secrets (logError err m) = Secrets m" "AWSProfile (logError err m) = AWSProfile m"
  "outputData (logError err m) = outputData m"
  by (simp_all add: logError_def)

lemma writeLoot_result:
  "writeLoot e outputDirectory verbosity m = (m', shown, file) \<Longrightarrow>
   Secrets m' = Secrets m \<and> AWSProfile m' = AWSProfile m \<and> outputData m' = outputData m \<and>
   file = (Join e [Join e [outputDirectory, ''cloudfox-output'', ''aws'', AWSProfile m, ''loot''],
                   ''pull-secrets-commands.txt''],
           lootCommands (Secrets m)) \<and>
   shown \<noteq> [] \<and>
   last shown = ''['' @ cyan e (CallingModule (outputData m)) @ ''] Loot written to ['' @ fst file
                  @ '']\<newline>''"
  by (auto simp: writeLoot_def Let_def split: option.splits)

lemma PrintSecrets_end_result:
  assumes "PrintSecrets_end e outputFormat outputDirectory verbosity m = (m', shown, file)"
  shows "Secrets m' = Secrets m" and "AWSProfile m' = AWSProfile m"
    and "Body (outputData m') = Body (outputData m) @ map tableRow (Secrets m)"
    and "file = (if Body (outputData m') = [] then None
                 else Some (Join e [Join e [outputDirectory, ''cloudfox-output'', ''aws'',
                                            AWSProfile m, ''loot''],
                                    ''pull-secrets-commands.txt''],
                            lootCommands (Secrets m)))"
    and "Body (outputData m') \<noteq> [] \<Longrightarrow>
           FilePath (outputData m') =
             Join e [outputDirectory, ''cloudfox-output'', ''aws'', AWSProfile m]"
    and "shown \<noteq> []"
    and "last shown =
           (if 0 < length (Body (outputData m'))
            then ''['' @ cyan e (CallingModule (outputData m)) @ ''] ''
                   @ Itoa (length (Body (outputData m'))) @ '' secrets found.\<newline>''
            else ''['' @ cyan e (CallingModule (outputData m))
                   @ ''] No secrets found, skipping the creation of an output file.\<newline>'')"
  using assms
  by (auto simp: PrintSecrets_end_def Let_def split: if_splits prod.splits
      dest!: writeLoot_result)

lemma PrintSecrets_begin_result:
  "PrintSecrets_begin e outputDirectory verbosity m = (m1, shown) \<Longrightarrow>
   AWSProfile m1 = resolvedProfile m \<and> Secrets m1 = Secrets m \<and> AWSRegions m1 = AWSRegions m \<and>
   CommandCounter m1 = CommandCounter m \<and> Body (outputData m1) = Body (outputData m) \<and>
   CallingModule (outputData m1) = ''secrets'' \<and> length shown = 2"
  by (auto simp: PrintSecrets_begin_def resolvedProfile_def Let_def split: if_splits)

lemma PrintSecrets_SomeE:
  assumes "PrintSecrets e api schedule outputFormat outputDirectory verbosity m = Some (m', shown, file)"
  obtains m1 shown1 s shown2 where
    "PrintSecrets_begin e outputDirectory verbosity m = (m1, shown1)"
    "exec api (start m1) schedule = Some s" "mainpc s = M_Joined"
    "PrintSecrets_end e outputFormat outputDirectory verbosity (module s) = (m', shown2, file)"
    "shown = shown1 @ shown2"
  using assms
  by (auto simp: PrintSecrets_def Let_def split: prod.splits option.splits if_splits)

text \<open>
  C9. Loot commands. Every Secret a run collects carries one of the two
  service names (given that those the module held at the call do), and for
  such a collection \<^verbatim>\<open>writeLoot\<close> hands to \<^verbatim>\<open>os.WriteFile\<close> the header followed by
  exactly one command line per Secret, in order: the get-secret-value form
  for ``SecretsManager'', the get-parameter form for ``SSM'', with the
  Secret's region and name as they are.
\<close>

theorem loot_one_command_per_item:
  "(exec api (start m) ts = Some s \<and> list_all knownService (Secrets m) \<longrightarrow>
      list_all knownService (Secrets (module s))) \<and>
   (list_all knownService (Secrets m') \<longrightarrow>
      snd (snd (writeLoot e outputDirectory verbosity m')) =
        (Join e [Join e [outputDirectory, ''cloudfox-output'', ''aws'', AWSProfile m', ''loot''],
                 ''pull-secrets-commands.txt''],
         lootHeader @ concat (map lootCommand (Secrets m'))))"
proof -
  have "list_all knownService (Secrets (module s))"
    if "exec api (start m) ts = Some s" "list_all knownService (Secrets m)"
    using services_inv_exec [OF that] by (simp add: services_inv_def)
  moreover
  have "snd (snd (writeLoot e outputDirectory verbosity m')) =
        (Join e [Join e [outputDirectory, ''cloudfox-output'', ''aws'', AWSProfile m', ''loot''],
                 ''pull-secrets-commands.txt''],
         lootHeader @ concat (map lootCommand (Secrets m')))"
    if "list_all knownService (Secrets m')"
  proof -
    obtain m2 shown written where w: "writeLoot e outputDirectory verbosity m' = (m2, shown, written)"
      by (cases "writeLoot e outputDirectory verbosity m'") auto
    from writeLoot_result [OF w] w that show ?thesis
      by (simp add: lootCommands_def foldl_lootAppend)
  qed
  ultimately show ?thesis by blast
qed

theorem loot_one_command_per_item_witness:
  "case exec scenarioApis (start scenarioModule) scenarioSchedule of
     None \<Rightarrow> False
   | Some s \<Rightarrow>
       list_all knownService (Secrets scenarioModule) \<and>
       list_all knownService (Secrets (module s)) \<and>
       snd (snd (writeLoot plainEnv ''out'' 0 (module s))) =
         (''/'' @ ''/out/cloudfox-output/aws//loot'' @ ''/pull-secrets-commands.txt'',
          lootHeader @
          ''aws --profile $profile --region us-east-1 secretsmanager get-secret-value --secret-id a1\<newline>'' @
          ''aws --profile $profile --region us-east-1 secretsmanager get-secret-value --secret-id a2\<newline>'' @
          ''aws --profile $profile --region us-west-2 secretsmanager get-secret-value --secret-id a3\<newline>'' @
          ''aws --profile $profile --region us-west-2 ssm get-parameter --with-decryption --name b1\<newline>'')"
proof -
  have "map_option (\<lambda>s. (Secrets (module s), AWSProfile (module s)))
          (exec scenarioApis (start scenarioModule) scenarioSchedule) =
        Some ([\<lparr>AWSService = ''SecretsManager'', Region = ''us-east-1'', Name = ''a1'',
                 Description = ''first''\<rparr>,
               \<lparr>AWSService = ''SecretsManager'', Region = ''us-east-1'', Name = ''a2'',
                 Description = []\<rparr>,
               \<lparr>AWSService = ''SecretsManager'', Region = ''us-west-2'', Name = ''a3'',
                 Description = []\<rparr>,
               \<lparr>AWSService = ''SSM'', Region = ''us-west-2'', Name = ''b1'',
                 Description = []\<rparr>], [])"
    by code_simp
  then obtain s where run: "exec scenarioApis (start scenarioModule) scenarioSchedule = Some s"
    and secrets: "Secrets (module s) =
             [\<lparr>AWSService = ''SecretsManager'', Region = ''us-east-1'', Name = ''a1'',
                 Description = ''first''\<rparr>,
               \<lparr>AWSService = ''SecretsManager'', Region = ''us-east-1'', Name = ''a2'',
                 Description = []\<rparr>,
               \<lparr>AWSService = ''SecretsManager'', Region = ''us-west-2'', Name = ''a3'',
                 Description = []\<rparr>,
               \<lparr>AWSService = ''SSM'', Region = ''us-west-2'', Name = ''b1'',
                 Description = []\<rparr>]"
    and profile: "AWSProfile (module s) = []"
    by auto
  have init: "list_all knownService (Secrets scenarioModule)"
    by (simp add: scenarioModule_def freshModule_def)
  note t = loot_one_command_per_item [of scenarioApis scenarioModule scenarioSchedule s
      "module s" plainEnv "''out''" 0]
  from t run init have known: "list_all knownService (Secrets (module s))" by blast
  with t have "snd (snd (writeLoot plainEnv ''out'' 0 (module s))) =
        (Join plainEnv [Join plainEnv [''out'', ''cloudfox-output'', ''aws'', AWSProfile (module s),
                          ''loot''], ''pull-secrets-commands.txt''],
         lootHeader @ concat (map lootCommand (Secrets (module s))))"
    by blast
  with run init known show ?thesis
    by (simp add: secrets profile plainEnv_def lootCommand_def)
qed

text \<open>
  C10. Default profile. After lines 54-56 \<^verbatim>\<open>m.AWSProfile\<close> is the account and the
  user id of the caller joined by a hyphen if it was empty at the call, and
  what it was otherwise. The concurrent phase does not touch it, so whenever
  PrintSecrets gets to line 89 the module carries that name, and both paths
  computed afterwards (the table's at line 113, the loot file's at lines 150
  and 156) are built from it.
\<close>

theorem profile_defaults_to_caller:
  "AWSProfile (fst (PrintSecrets_begin e outputDirectory verbosity m)) =
     (if AWSProfile m = []
      then ToString (Account (Caller m)) @ ''-'' @ ToString (UserId (Caller m))
      else AWSProfile m) \<and>
   (PrintSecrets e api schedule outputFormat outputDirectory verbosity m = Some (m', shown, file) \<longrightarrow>
      AWSProfile m' = resolvedProfile m \<and>
      (Body (outputData m') \<noteq> [] \<longrightarrow>
         FilePath (outputData m') =
           Join e [outputDirectory, ''cloudfox-output'', ''aws'', resolvedProfile m]) \<and>
      (\<forall>f. file = Some f \<longrightarrow>
         fst f = Join e [Join e [outputDirectory, ''cloudfox-output'', ''aws'',
                                 resolvedProfile m, ''loot''],
                         ''pull-secrets-commands.txt'']))"
proof -
  have first: "AWSProfile (fst (PrintSecrets_begin e outputDirectory verbosity m)) =
     (if AWSProfile m = []
      then ToString (Account (Caller m)) @ ''-'' @ ToString (UserId (Caller m))
      else AWSProfile m)"
    by (simp add: PrintSecrets_begin_def Let_def)
  have rest: "AWSProfile m' = resolvedProfile m \<and>
      (Body (outputData m') \<noteq> [] \<longrightarrow>
         FilePath (outputData m') =
           Join e [outputDirectory, ''cloudfox-output'', ''aws'', resolvedProfile m]) \<and>
      (\<forall>f. file = Some f \<longrightarrow>
         fst f = Join e [Join e [outputDirectory, ''cloudfox-output'', ''aws'',
                                 resolvedProfile m, ''loot''],
                         ''pull-secrets-commands.txt''])"
    if "PrintSecrets e api schedule outputFormat outputDirectory verbosity m = Some (m', shown, file)"
  proof -
    from that obtain m1 shown1 s shown2 where
      b: "PrintSecrets_begin e outputDirectory verbosity m = (m1, shown1)"
      and run: "exec api (start m1) schedule = Some s"
      and fin: "PrintSecrets_end e outputFormat outputDirectory verbosity (module s) = (m', shown2, file)"
      by (rule PrintSecrets_SomeE)
    from PrintSecrets_begin_result [OF b] untouched_exec [OF run]
    have p: "AWSProfile (module s) = resolvedProfile m" by (simp add: untouched_def)
    from PrintSecrets_end_result(2,4,5) [OF fin] p show ?thesis
      by (auto split: if_splits)
  qed
  from first rest show ?thesis by blast
qed

theorem profile_defaults_to_caller_witness:
  "case PrintSecrets plainEnv scenarioApis scenarioSchedule ''table'' ''out'' 0 scenarioModule of
     None \<Rightarrow> False
   | Some (m', shown, file) \<Rightarrow>
       AWSProfile scenarioModule = [] \<and>
       AWSProfile m' = ''123456789012-AIDAEXAMPLE'' \<and>
       Body (outputData m') \<noteq> [] \<and>
       FilePath (outputData m') = ''/out/cloudfox-output/aws/123456789012-AIDAEXAMPLE'' \<and>
       map_option fst file =
         Some (''/'' @ ''/out/cloudfox-output/aws/123456789012-AIDAEXAMPLE/loot''
                 @ ''/pull-secrets-commands.txt'')"
proof -
  have "map_option (\<lambda>(m', shown, file). (length (Body (outputData m')), file \<noteq> None))
          (PrintSecrets plainEnv scenarioApis scenarioSchedule ''table'' ''out'' 0 scenarioModule)
        = Some (4, True)"
    by code_simp
  then obtain m' shown path content where
    run: "PrintSecrets plainEnv scenarioApis scenarioSchedule ''table'' ''out'' 0 scenarioModule
            = Some (m', shown, Some (path, content))"
    and body: "length (Body (outputData m')) = 4"
    by auto
  have empty: "AWSProfile scenarioModule = []"
    and name: "resolvedProfile scenarioModule = ''123456789012-AIDAEXAMPLE''"
    by (simp_all add: scenarioModule_def freshModule_def resolvedProfile_def ToString_def)
  from body have nonempty: "Body (outputData m') \<noteq> []" by auto
  from profile_defaults_to_caller [of plainEnv "''out''" 0 scenarioModule scenarioApis
      scenarioSchedule "''table''" m' shown "Some (path, content)"] run nonempty
  have "AWSProfile m' = resolvedProfile scenarioModule"
    and "FilePath (outputData m') =
           Join plainEnv [''out'', ''cloudfox-output'', ''aws'', resolvedProfile scenarioModule]"
    and "path = Join plainEnv [Join plainEnv [''out'', ''cloudfox-output'', ''aws'',
                                 resolvedProfile scenarioModule, ''loot''],
                         ''pull-secrets-commands.txt'']"
    by simp_all
  with run empty nonempty show ?thesis by (simp add: name plainEnv_def)
qed

subsection \<open>The progress counters\<close>

lemma exec_atomic_exec: "exec_atomic api s ts = Some s' \<Longrightarrow> exec api s ts = Some s'"
  by (induction ts arbitrary: s) (auto split: if_splits option.splits)

lemma exec_atomic_invariant:
  assumes "exec_atomic api s0 ts = Some s" and "P s0"
    and "\<And>s t s'. P s \<Longrightarrow> undisturbed s t \<Longrightarrow> step api s t = Some s' \<Longrightarrow> P s'"
  shows "P s"
  using assms(1,2)
proof (induction ts arbitrary: s0)
  case Nil
  then show ?case by simp
next
  case (Cons t ts)
  then show ?case by (auto split: option.splits if_splits intro: assms(3))
qed

lemma perform_written: "perform a s = Some s0 \<Longrightarrow> counter s0 = written a (counter s)"
  by (cases a) (auto simp: counter_def set_counter_def split: if_splits)

lemma not_storing_fresh: "\<not> storing p \<Longrightarrow> fresh_reg c p"
  by (cases p) simp_all

lemma not_main_storing_fresh: "\<not> main_storing p \<Longrightarrow> main_fresh c p"
  by (cases p) simp_all

lemma executeChecks_step_fresh:
  "executeChecks_step api c r p = Some (a, p') \<Longrightarrow> fresh_reg (written a c) p'"
  by (induction api c r p rule: executeChecks_step.induct) (auto split: sum.splits if_splits)

lemma executeChecks_step_counts:
  assumes "executeChecks_step api c r p = Some (a, p')" and "fresh_reg c p"
  shows "Pending (written a c) = Pending c - (left_pending p' - left_pending p)"
    and "Executing (written a c) = Executing c + (in_executing p' - in_executing p)"
    and "Complete (written a c) = Complete c + (completed p' - completed p)"
  using assms
  by (induction api c r p rule: executeChecks_step.induct) (auto split: sum.splits if_splits)

lemma undisturbed_others:
  "undisturbed s t \<Longrightarrow> (\<And>j. t \<noteq> Worker j) \<Longrightarrow> w \<in> set (workers s) \<Longrightarrow> \<not> storing (pc w)"
  by (auto simp: undisturbed_def list_all_iff in_set_conv_nth)

lemma atomic_inv_start: "atomic_inv m (start m)"
  by (simp add: atomic_inv_def start_def counter_def scheduled_def)

lemma atomic_inv_main:
  assumes inv: "atomic_inv m s" and und: "undisturbed s MainThread" and st: "main_step s = Some s'"
  shows "atomic_inv m s'"
proof -
  have quiet: "\<And>w. w \<in> set (workers s) \<Longrightarrow> \<not> storing (pc w)"
    using undisturbed_others [OF und] by simp
  then have fr: "\<And>w c. w \<in> set (workers s) \<Longrightarrow> fresh_reg c (pc w)"
    by (simp add: not_storing_fresh)
  from inv st fr show ?thesis
    by (auto simp: atomic_inv_def counter_def set_counter_def scheduled_def
        split: mpc.splits list.splits if_splits)
qed

lemma atomic_inv_receiver:
  "atomic_inv m s \<Longrightarrow> receiver_step s = Some s' \<Longrightarrow> atomic_inv m s'"
  by (auto simp: atomic_inv_def counter_def scheduled_def split: rpc.splits)

lemma atomic_inv_worker:
  assumes inv: "atomic_inv m s" and und: "undisturbed s (Worker i)"
    and st: "worker_step api i s = Some s'"
  shows "atomic_inv m s'"
proof -
  from st obtain a p s0 where i: "i < length (workers s)"
    and ex: "executeChecks_step api (counter s) (region (workers s ! i)) (pc (workers s ! i)) = Some (a, p)"
    and pf: "perform a s = Some s0"
    and s': "s' = s0\<lparr>workers := (workers s)[i := (workers s ! i)\<lparr>pc := p,
            history := record_action a (history (workers s ! i)),
            stores := record_store a (stores (workers s ! i)),
            listed := listed (workers s ! i) @ listedAt api (region (workers s ! i)) (pc (workers s ! i)),
            described := described (workers s ! i)
              @ describedAt api (region (workers s ! i)) (pc (workers s ! i))\<rparr>]\<rparr>"
    by (rule worker_stepE)
  let ?w = "workers s ! i"
  let ?w' = "?w\<lparr>pc := p, history := record_action a (history ?w), stores := record_store a (stores ?w),
                listed := listed ?w @ listedAt api (region ?w) (pc ?w),
                described := described ?w @ describedAt api (region ?w) (pc ?w)\<rparr>"
  let ?c = "counter s"
  have cs': "counter s' = written a ?c" using s' perform_written [OF pf] by (simp add: counter_def)
  have frame: "mainpc s' = mainpc s" "workers s' = (workers s)[i := ?w']"
    using s' perform_frame [OF pf] by simp_all
  have wi: "?w \<in> set (workers s)" using i by simp
  from inv wi have fw: "fresh_reg ?c (pc ?w)" by (simp add: atomic_inv_def)
  note counts = executeChecks_step_counts [OF ex fw]
  have mainq: "\<not> main_storing (mainpc s)" using und by (simp add: undisturbed_def)
  have fresh': "\<forall>w\<in>set (workers s'). fresh_reg (counter s') (pc w)"
  proof
    fix w assume "w \<in> set (workers s')"
    then obtain k where k: "k < length (workers s)" and w: "w = (workers s)[i := ?w'] ! k"
      by (auto simp: frame(2) in_set_conv_nth)
    show "fresh_reg (counter s') (pc w)"
    proof (cases "k = i")
      case True
      with k w have "pc w = p" by simp
      with executeChecks_step_fresh [OF ex] cs' show ?thesis by simp
    next
      case False
      with w have "w = workers s ! k" by simp
      moreover from und False k have "\<not> storing (pc (workers s ! k))"
        by (auto simp: undisturbed_def list_all_iff)
      ultimately show ?thesis by (simp add: not_storing_fresh)
    qed
  qed
  have sums:
    "(\<Sum>w\<leftarrow>workers s'. left_pending (pc w)) = (\<Sum>w\<leftarrow>workers s. left_pending (pc w)) + (left_pending p - left_pending (pc ?w))"
    "(\<Sum>w\<leftarrow>workers s'. in_executing (pc w)) = (\<Sum>w\<leftarrow>workers s. in_executing (pc w)) + (in_executing p - in_executing (pc ?w))"
    "(\<Sum>w\<leftarrow>workers s'. completed (pc w)) = (\<Sum>w\<leftarrow>workers s. completed (pc w)) + (completed p - completed (pc ?w))"
    using sum_list_map_update [OF i, of "\<lambda>w. left_pending (pc w)" ?w']
      sum_list_map_update [OF i, of "\<lambda>w. in_executing (pc w)" ?w']
      sum_list_map_update [OF i, of "\<lambda>w. completed (pc w)" ?w']
    by (simp_all add: frame(2))
  have sched: "scheduled s' = scheduled s" using frame i by (simp add: scheduled_def)
  from inv have P: "Pending ?c = Pending (CommandCounter m) + scheduled s - (\<Sum>w\<leftarrow>workers s. left_pending (pc w))"
    and E: "Executing ?c = Executing (CommandCounter m) + (\<Sum>w\<leftarrow>workers s. in_executing (pc w))"
    and C: "Complete ?c = Complete (CommandCounter m) + (\<Sum>w\<leftarrow>workers s. completed (pc w))"
    by (simp_all add: atomic_inv_def)
  have "main_fresh (counter s') (mainpc s')"
    using mainq frame(1) by (simp add: not_main_storing_fresh)
  with fresh' counts sums sched P E C cs' show ?thesis
    by (simp add: atomic_inv_def)
qed

lemma atomic_inv_step:
  "atomic_inv m s \<Longrightarrow> undisturbed s t \<Longrightarrow> step api s t = Some s' \<Longrightarrow> atomic_inv m s'"
  by (cases t) (auto intro: atomic_inv_main atomic_inv_worker atomic_inv_receiver)

lemma atomic_inv_exec:
  assumes "exec_atomic api (start m) ts = Some s"
  shows "atomic_inv m s"
proof (rule exec_atomic_invariant [where P = "atomic_inv m", OF assms])
  show "atomic_inv m (start m)" by (rule atomic_inv_start)
qed (rule atomic_inv_step)



lemma sum_list_at_exit:
  assumes "\<forall>w\<in>set ws. pc w = W_Exit"
  shows "(\<Sum>w\<leftarrow>ws. left_pending (pc w)) = int (length ws)"
    and "(\<Sum>w\<leftarrow>ws. in_executing (pc w)) = 0"
    and "(\<Sum>w\<leftarrow>ws. completed (pc w)) = int (length ws)"
  using assms by (induction ws) simp_all

lemma executeChecks_step_complete:
  assumes "executeChecks_step api c r p = Some (a, p')"
  shows "p' = W_CompleteStore v \<Longrightarrow> v = Complete c"
    and "a = Write FComplete x \<Longrightarrow> p = W_CompleteStore (x - 1) \<and> completed p' = completed p + 1"
    and "\<forall>x. a \<noteq> Write FComplete x \<Longrightarrow> completed p' = completed p"
  using assms
  by (induction api c r p rule: executeChecks_step.induct) (auto split: sum.splits if_splits)

lemma executeChecks_step_complete_write:
  "executeChecks_step api c r p = Some (a, p') \<Longrightarrow>
   (case p of W_CompleteStore v \<Rightarrow> a = Write FComplete (v + 1)
            | _ \<Rightarrow> (\<forall>x. a \<noteq> Write FComplete x))"
  by (induction api c r p rule: executeChecks_step.induct) (auto split: sum.splits if_splits)

lemma perform_complete:
  "perform a s = Some s0 \<Longrightarrow>
   Complete (counter s0) = (case a of Write FComplete v \<Rightarrow> v | _ \<Rightarrow> Complete (counter s))"
  by (cases a) (auto simp: counter_def set_counter_def split: if_splits field.splits elim: put.elims)

lemma complete_inv_start: "complete_inv m (start m)"
  by (simp add: complete_inv_def start_def counter_def)

lemma complete_inv_main:
  "complete_inv m s \<Longrightarrow> main_step s = Some s' \<Longrightarrow> complete_inv m s'"
  by (auto simp: complete_inv_def counter_def set_counter_def split: mpc.splits list.splits if_splits)

lemma complete_inv_receiver:
  "complete_inv m s \<Longrightarrow> receiver_step s = Some s' \<Longrightarrow> complete_inv m s'"
  by (auto simp: complete_inv_def counter_def split: rpc.splits)

lemma complete_inv_worker:
  assumes inv: "complete_inv m s" and st: "worker_step api i s = Some s'"
  shows "complete_inv m s'"
proof -
  from st obtain a p s0 where i: "i < length (workers s)"
    and ex: "executeChecks_step api (counter s) (region (workers s ! i)) (pc (workers s ! i)) = Some (a, p)"
    and pf: "perform a s = Some s0"
    and s': "s' = s0\<lparr>workers := (workers s)[i := (workers s ! i)\<lparr>pc := p,
            history := record_action a (history (workers s ! i)),
            stores := record_store a (stores (workers s ! i)),
            listed := listed (workers s ! i) @ listedAt api (region (workers s ! i)) (pc (workers s ! i)),
            described := described (workers s ! i)
              @ describedAt api (region (workers s ! i)) (pc (workers s ! i))\<rparr>]\<rparr>"
    by (rule worker_stepE)
  let ?C = "Complete (CommandCounter m)"
  let ?K = "\<Sum>w\<leftarrow>workers s. completed (pc w)"
  let ?K' = "\<Sum>w\<leftarrow>workers s'. completed (pc w)"
  let ?w = "workers s ! i"
  let ?w' = "?w\<lparr>pc := p, history := record_action a (history ?w), stores := record_store a (stores ?w),
                listed := listed ?w @ listedAt api (region ?w) (pc ?w),
                described := described ?w @ describedAt api (region ?w) (pc ?w)\<rparr>"
  have wi: "?w \<in> set (workers s)" using i by simp
  have cs': "counter s' = counter s0" using s' by (simp add: counter_def)
  have frame: "workers s' = (workers s)[i := ?w']" using s' by simp
  have ws': "set (workers s') \<subseteq> insert ?w' (set (workers s))"
    using frame set_update_subset_insert [of "workers s" i] by simp
  have K': "?K' = ?K + (completed p - completed (pc ?w))"
    using sum_list_map_update [OF i, of "\<lambda>w. completed (pc w)" ?w'] by (simp add: frame)
  from inv have lo: "?C \<le> Complete (counter s)" and hi: "Complete (counter s) \<le> ?C + ?K"
    and regs: "\<And>w v. w \<in> set (workers s) \<Longrightarrow> pc w = W_CompleteStore v \<Longrightarrow> ?C \<le> v \<and> v \<le> ?C + ?K"
    and once: "0 < ?K \<Longrightarrow> ?C + 1 \<le> Complete (counter s)"
    by (auto simp: complete_inv_def)
  show ?thesis
  proof (cases "\<exists>x. a = Write FComplete x")
    case True
    then obtain x where a: "a = Write FComplete x" by blast
    from executeChecks_step_complete(2) [OF ex a]
    have pw: "pc ?w = W_CompleteStore (x - 1)" and up: "completed p = completed (pc ?w) + 1"
      by simp_all
    from regs [OF wi pw] have x: "?C \<le> x - 1" "x - 1 \<le> ?C + ?K" by simp_all
    from perform_complete [OF pf] a cs' have c': "Complete (counter s') = x" by simp
    from K' up have k: "?K' = ?K + 1" by simp
    from up pw have np: "p \<noteq> W_CompleteStore v" for v by auto
    have regs': "?C \<le> v \<and> v \<le> ?C + ?K'" if "w \<in> set (workers s')" "pc w = W_CompleteStore v" for w v
    proof -
      from that ws' np have "w \<in> set (workers s)" by auto
      from regs [OF this that(2)] k show ?thesis by simp
    qed
    have "?C \<le> Complete (counter s')" "Complete (counter s') \<le> ?C + ?K'"
      "?C + 1 \<le> Complete (counter s')"
      using x c' k by simp_all
    with regs' show ?thesis unfolding complete_inv_def by blast
  next
    case False
    then have na: "\<forall>x. a \<noteq> Write FComplete x" by simp
    with perform_complete [OF pf] cs' have c': "Complete (counter s') = Complete (counter s)"
      by (cases a) (auto split: field.splits)
    from K' executeChecks_step_complete(3) [OF ex na] have k: "?K' = ?K" by simp
    have regs': "?C \<le> v \<and> v \<le> ?C + ?K'" if "w \<in> set (workers s')" "pc w = W_CompleteStore v" for w v
    proof (cases "w \<in> set (workers s)")
      case True
      from regs [OF this that(2)] k show ?thesis by simp
    next
      case False
      with that ws' have "p = W_CompleteStore v" by auto
      from executeChecks_step_complete(1) [OF ex this] lo hi k show ?thesis by simp
    qed
    have "?C \<le> Complete (counter s')" "Complete (counter s') \<le> ?C + ?K'"
      "0 < ?K' \<longrightarrow> ?C + 1 \<le> Complete (counter s')"
      using lo hi once c' k by simp_all
    with regs' show ?thesis unfolding complete_inv_def by blast
  qed
qed

lemma complete_inv_step:
  "complete_inv m s \<Longrightarrow> step api s t = Some s' \<Longrightarrow> complete_inv m s'"
  by (cases t) (auto intro: complete_inv_main complete_inv_worker complete_inv_receiver)

lemma complete_inv_exec:
  "exec api (start m) ts = Some s \<Longrightarrow> complete_inv m s"
  by (erule exec_invariant [where P = "complete_inv m"])
     (auto intro: complete_inv_start complete_inv_step)

lemma written_other:
  "\<forall>x. a \<noteq> Write FComplete x \<Longrightarrow>
   Complete (written a c) = Complete c \<and>
   count_list (record_store a fs) FComplete = count_list fs FComplete"
proof (cases a)
  case (Write f v)
  assume "\<forall>x. a \<noteq> Write FComplete x"
  with Write have "f \<noteq> FComplete" by auto
  with Write show ?thesis by (cases f) simp_all
qed simp_all

lemma worker_step_complete:
  assumes st: "worker_step api i s = Some s'"
  shows "case pc (workers s ! i) of
           W_CompleteStore v \<Rightarrow>
             Complete (counter s') = v + 1 \<and>
             stores (workers s' ! i) = stores (workers s ! i) @ [FComplete]
         | _ \<Rightarrow>
             Complete (counter s') = Complete (counter s) \<and>
             count_list (stores (workers s' ! i)) FComplete =
               count_list (stores (workers s ! i)) FComplete"
proof -
  from st obtain a p s0 where i: "i < length (workers s)"
    and ex: "executeChecks_step api (counter s) (region (workers s ! i)) (pc (workers s ! i)) = Some (a, p)"
    and pf: "perform a s = Some s0"
    and s': "s' = s0\<lparr>workers := (workers s)[i := (workers s ! i)\<lparr>pc := p,
            history := record_action a (history (workers s ! i)),
            stores := record_store a (stores (workers s ! i)),
            listed := listed (workers s ! i) @ listedAt api (region (workers s ! i)) (pc (workers s ! i)),
            described := described (workers s ! i)
              @ describedAt api (region (workers s ! i)) (pc (workers s ! i))\<rparr>]\<rparr>"
    by (rule worker_stepE)
  have st': "stores (workers s' ! i) = record_store a (stores (workers s ! i))"
    using s' i by simp
  have cs': "counter s' = written a (counter s)"
    using s' perform_written [OF pf] by (simp add: counter_def)
  from executeChecks_step_complete_write [OF ex] show ?thesis
    by (cases "pc (workers s ! i)") (simp_all add: st' cs' written_other)
qed

lemma complete_increment:
  assumes "i < length (workers s)" and "pc (workers s ! i) = W_CompleteLoad"
  shows "\<exists>s2. exec api s [Worker i, Worker i] = Some s2 \<and>
              Complete (counter s2) = Complete (counter s) + 1 \<and>
              stores (workers s2 ! i) = stores (workers s ! i) @ [FComplete] \<and>
              pc (workers s2 ! i) = W_Done"
  using assms by (simp add: worker_step_def Let_def counter_def set_counter_def)

text \<open>
  C5. Partial-failure isolation. A failed request ends the loop of its own
  source with the error logged and nothing further requested, and nothing
  else. Whatever fails, when PrintSecrets has taken the receiver's
  acknowledgment both sources of every region have returned, and \<^verbatim>\<open>m.Secrets\<close>
  holds (besides what it held at the call) exactly what each source of each
  region sends when run by itself; if any source logged an error, \<^verbatim>\<open>Error\<close> is at
  least one above its value at the call; and every goroutine has written
  \<^verbatim>\<open>Complete\<close> exactly once, as its last counter update. That write is an
  increment of the field: a step of a goroutine changes \<^verbatim>\<open>Complete\<close> only when it
  is that write, which sets the field to the value the goroutine has read plus
  one; a goroutine at line 146 that is not interrupted between its read and its
  write leaves \<^verbatim>\<open>Complete\<close> one higher. So at the end \<^verbatim>\<open>Complete\<close> is above its
  value at the call by at least one, if there is any region, and by at most the
  number of regions; and by exactly the number of regions, failed or not, if
  no two counter updates of the run overlapped.
\<close>

theorem partial_failure_isolation:
  assumes "exec api (start m) ts = Some s" and "mainpc s = M_Joined"
  shows "(\<forall>r\<in>set (AWSRegions m).
            \<exists>a b. getSecretsManagerSecretsPerRegion (SecretsManagerClient api) r = Some a \<and>
                  getSSMParametersPerRegion (SSMClient api) r = Some b) \<and>
         mset (Secrets (module s)) =
           mset (Secrets m) +
           (\<Sum>r\<leftarrow>AWSRegions m.
              mset (sends (the (getSecretsManagerSecretsPerRegion (SecretsManagerClient api) r))) +
              mset (sends (the (getSSMParametersPerRegion (SSMClient api) r)))) \<and>
         (\<forall>r tok err. SecretsManagerClient api r tok = Inl err \<longrightarrow>
            listSecretsFrom (SecretsManagerClient api) r tok =
              Some \<lparr>sends = [], errors = [err], calls = [tok]\<rparr>) \<and>
         (\<forall>r tok err. SSMClient api r tok = Inl err \<longrightarrow>
            describeParametersFrom (SSMClient api) r tok =
              Some \<lparr>sends = [], errors = [err], calls = [tok]\<rparr>) \<and>
         ((\<exists>r\<in>set (AWSRegions m). \<exists>e. executeChecks_effects api r = Some e \<and> errors e \<noteq> []) \<longrightarrow>
            Error (CommandCounter m) + 1 \<le> Error (counter s)) \<and>
         (\<forall>w\<in>set (workers s).
            stores w = entered @ replicate (length (errors (history w))) FError
                         @ [FExecuting, FComplete] \<and>
            count_list (stores w) FComplete = 1) \<and>
         (\<forall>s0 i s1. worker_step api i s0 = Some s1 \<longrightarrow>
            (case pc (workers s0 ! i) of
               W_CompleteStore v \<Rightarrow>
                 Complete (counter s1) = v + 1 \<and>
                 stores (workers s1 ! i) = stores (workers s0 ! i) @ [FComplete]
             | _ \<Rightarrow>
                 Complete (counter s1) = Complete (counter s0) \<and>
                 count_list (stores (workers s1 ! i)) FComplete =
                   count_list (stores (workers s0 ! i)) FComplete)) \<and>
         (\<forall>s0 i. i < length (workers s0) \<and> pc (workers s0 ! i) = W_CompleteLoad \<longrightarrow>
            (\<exists>s2. exec api s0 [Worker i, Worker i] = Some s2 \<and>
                  Complete (counter s2) = Complete (counter s0) + 1 \<and>
                  stores (workers s2 ! i) = stores (workers s0 ! i) @ [FComplete] \<and>
                  pc (workers s2 ! i) = W_Done)) \<and>
         Complete (CommandCounter m) + (if AWSRegions m = [] then 0 else 1)
           \<le> Complete (counter s) \<and>
         Complete (counter s) \<le> Complete (CommandCounter m) + int (length (AWSRegions m)) \<and>
         (exec_atomic api (start m) ts = Some s \<longrightarrow>
            Complete (counter s) = Complete (CommandCounter m) + int (length (AWSRegions m)))"
proof -
  from assms(2) have st: "stopped s" by (simp add: stopped_def)
  note f = stopped_facts [OF assms(1) st]
  let ?sm = "\<lambda>r. getSecretsManagerSecretsPerRegion (SecretsManagerClient api) r"
  let ?ssm = "\<lambda>r. getSSMParametersPerRegion (SSMClient api) r"
  have both: "\<exists>a b. ?sm (region w) = Some a \<and> ?ssm (region w) = Some b \<and>
                history w = then_effects a b"
    if "w \<in> set (workers s)" for w
  proof -
    from f(4) that have "executeChecks_effects api (region w) = Some (history w)" by simp
    then show ?thesis
      by (cases "?sm (region w)"; cases "?ssm (region w)")
         (simp_all add: executeChecks_effects_def)
  qed
  have returned: "\<forall>r\<in>set (AWSRegions m). \<exists>a b. ?sm r = Some a \<and> ?ssm r = Some b"
  proof
    fix r assume "r \<in> set (AWSRegions m)"
    with f(2) obtain w where "w \<in> set (workers s)" "region w = r"
      by (metis imageE set_map)
    with both [of w] show "\<exists>a b. ?sm r = Some a \<and> ?ssm r = Some b" by auto
  qed
  have "\<forall>w\<in>set (workers s).
          mset (sends (history w)) =
          mset (sends (the (?sm (region w)))) + mset (sends (the (?ssm (region w))))"
    using both by (fastforce simp: then_effects_def)
  from submitted_regions [where f = "\<lambda>r. mset (sends (the (?sm r))) + mset (sends (the (?ssm r)))",
      OF this]
  have items: "mset (Secrets (module s)) =
           mset (Secrets m) +
           (\<Sum>r\<leftarrow>AWSRegions m. mset (sends (the (?sm r))) + mset (sends (the (?ssm r))))"
    using f(2,3) by simp
  have tally: "Error (CommandCounter m) + 1 \<le> Error (counter s)"
    if "\<exists>r\<in>set (AWSRegions m). \<exists>e. executeChecks_effects api r = Some e \<and> errors e \<noteq> []"
  proof -
    from that f(2) obtain w e where w: "w \<in> set (workers s)"
      and e: "executeChecks_effects api (region w) = Some e" "errors e \<noteq> []"
      by (metis imageE set_map)
    with f(4) have ne: "errors (history w) \<noteq> []" by auto
    from workers_inv_exec [OF assms(1)] w f(1)
    have "stores w = entered @ replicate (length (errors (history w))) FError
                       @ [FExecuting, FComplete]"
      by (auto simp: workers_inv_def dest: worker_inv_exit(2))
    with ne have "FError \<in> set (stores w)" by (cases "errors (history w)") simp_all
    with w error_inv_exec [OF assms(1)] show ?thesis by (auto simp: error_inv_def)
  qed
  have shape: "\<forall>w\<in>set (workers s).
            stores w = entered @ replicate (length (errors (history w))) FError
                         @ [FExecuting, FComplete] \<and>
            count_list (stores w) FComplete = 1"
  proof
    fix w assume w: "w \<in> set (workers s)"
    from workers_inv_exec [OF assms(1)] w f(1)
    have "stores w = entered @ replicate (length (errors (history w))) FError
                       @ [FExecuting, FComplete]"
      by (auto simp: workers_inv_def dest: worker_inv_exit(2))
    then show "stores w = entered @ replicate (length (errors (history w))) FError
                         @ [FExecuting, FComplete] \<and>
            count_list (stores w) FComplete = 1"
      by (simp add: entered_def count_list_other)
  qed
  have stop1: "\<forall>r tok err. SecretsManagerClient api r tok = Inl err \<longrightarrow>
            listSecretsFrom (SecretsManagerClient api) r tok =
              Some \<lparr>sends = [], errors = [err], calls = [tok]\<rparr>"
    by (simp add: listSecretsFrom_Inl)
  have stop2: "\<forall>r tok err. SSMClient api r tok = Inl err \<longrightarrow>
            describeParametersFrom (SSMClient api) r tok =
              Some \<lparr>sends = [], errors = [err], calls = [tok]\<rparr>"
    by (simp add: describeParametersFrom_Inl)
  from tally
  have tally': "(\<exists>r\<in>set (AWSRegions m). \<exists>e. executeChecks_effects api r = Some e \<and> errors e \<noteq> []) \<longrightarrow>
            Error (CommandCounter m) + 1 \<le> Error (counter s)"
    by (rule impI)
  have stepw: "\<forall>s0 i s1. worker_step api i s0 = Some s1 \<longrightarrow>
            (case pc (workers s0 ! i) of
               W_CompleteStore v \<Rightarrow>
                 Complete (counter s1) = v + 1 \<and>
                 stores (workers s1 ! i) = stores (workers s0 ! i) @ [FComplete]
             | _ \<Rightarrow>
                 Complete (counter s1) = Complete (counter s0) \<and>
                 count_list (stores (workers s1 ! i)) FComplete =
                   count_list (stores (workers s0 ! i)) FComplete)"
    by (intro allI impI) (rule worker_step_complete)
  have incr: "\<forall>s0 i. i < length (workers s0) \<and> pc (workers s0 ! i) = W_CompleteLoad \<longrightarrow>
            (\<exists>s2. exec api s0 [Worker i, Worker i] = Some s2 \<and>
                  Complete (counter s2) = Complete (counter s0) + 1 \<and>
                  stores (workers s2 ! i) = stores (workers s0 ! i) @ [FComplete] \<and>
                  pc (workers s2 ! i) = W_Done)"
    by (intro allI impI, erule conjE) (rule complete_increment)
  from f(2) have "length (workers s) = length (AWSRegions m)" by (metis length_map)
  with sum_list_at_exit(3) [OF f(1)]
  have K: "(\<Sum>w\<leftarrow>workers s. completed (pc w)) = int (length (AWSRegions m))" by simp
  from complete_inv_exec [OF assms(1)] K
  have lowb: "Complete (CommandCounter m) + (if AWSRegions m = [] then 0 else 1)
           \<le> Complete (counter s)"
    and upb: "Complete (counter s) \<le> Complete (CommandCounter m) + int (length (AWSRegions m))"
    by (simp_all add: complete_inv_def)
  have exact: "exec_atomic api (start m) ts = Some s \<longrightarrow>
            Complete (counter s) = Complete (CommandCounter m) + int (length (AWSRegions m))"
  proof
    assume "exec_atomic api (start m) ts = Some s"
    from atomic_inv_exec [OF this] K show
      "Complete (counter s) = Complete (CommandCounter m) + int (length (AWSRegions m))"
      by (simp add: atomic_inv_def)
  qed
  show ?thesis
    using returned items stop1 stop2 tally' shape stepw incr lowb upb exact
    by - (intro conjI, assumption+)
qed

theorem partial_failure_isolation_witness:
  "case exec scenarioApis (start scenarioModule) scenarioSchedule of
     None \<Rightarrow> False
   | Some s \<Rightarrow>
       mainpc s = M_Joined \<and>
       SSMClient scenarioApis ''us-east-1'' None = Inl ''AccessDeniedException'' \<and>
       length (Secrets (module s)) = 4 \<and>
       Error (CommandCounter scenarioModule) + 1 \<le> Error (counter s) \<and>
       list_all (\<lambda>w. count_list (stores w) FComplete = 1) (workers s) \<and>
       exec_atomic scenarioApis (start scenarioModule) scenarioSchedule = Some s \<and>
       Complete (counter s) = 2"
proof -
  have "map_option mainpc (exec_atomic scenarioApis (start scenarioModule) scenarioSchedule)
          = Some M_Joined"
    by code_simp
  then obtain s where atomic: "exec_atomic scenarioApis (start scenarioModule) scenarioSchedule = Some s"
    and joined: "mainpc s = M_Joined"
    by auto
  from atomic have run: "exec scenarioApis (start scenarioModule) scenarioSchedule = Some s"
    by (rule exec_atomic_exec)
  note t = partial_failure_isolation [OF run joined]
  note items = t [THEN conjunct2, THEN conjunct1]
  note tallied = t [THEN conjunct2, THEN conjunct2, THEN conjunct2, THEN conjunct2, THEN conjunct1]
  note once = t [THEN conjunct2, THEN conjunct2, THEN conjunct2, THEN conjunct2, THEN conjunct2,
      THEN conjunct1]
  note exact = t [THEN conjunct2, THEN conjunct2, THEN conjunct2, THEN conjunct2, THEN conjunct2,
      THEN conjunct2, THEN conjunct2, THEN conjunct2, THEN conjunct2, THEN conjunct2]
  from exact atomic have complete: "Complete (counter s) = 2"
    by (simp add: scenarioModule_def freshModule_def)
  have fails: "SSMClient scenarioApis ''us-east-1'' None = Inl ''AccessDeniedException''"
    by (simp add: scenarioApis_def)
  have east: "executeChecks_effects scenarioApis ''us-east-1'' =
      Some \<lparr>sends = [secretOfEntry ''us-east-1'' (SecretListEntry (Some ''a1'') (Some ''first'')),
                     secretOfEntry ''us-east-1'' (SecretListEntry (Some ''a2'') None)],
            errors = [''AccessDeniedException''], calls = [None, None]\<rparr>"
    by (simp add: executeChecks_effects_def getSecretsManagerSecretsPerRegion_def
        getSSMParametersPerRegion_def scenarioApis_def listSecretsFrom_Inr
        describeParametersFrom_Inl then_effects_def)
  have "\<exists>r\<in>set (AWSRegions scenarioModule). \<exists>e.
          executeChecks_effects scenarioApis r = Some e \<and> errors e \<noteq> []"
    using east by (simp add: scenarioModule_def freshModule_def)
  with tallied have tally: "Error (CommandCounter scenarioModule) + 1 \<le> Error (counter s)"
    by (rule mp)
  from arg_cong [OF items, of size] have "length (Secrets (module s)) = 4"
    by (simp add: scenarioModule_def freshModule_def getSecretsManagerSecretsPerRegion_def
        getSSMParametersPerRegion_def scenarioApis_def listSecretsFrom_Inr
        describeParametersFrom_Inl describeParametersFrom_Inr then_effects_def)
  moreover from once have "\<forall>w\<in>set (workers s). count_list (stores w) FComplete = 1"
    by blast
  then have "list_all (\<lambda>w. count_list (stores w) FComplete = 1) (workers s)"
    by (simp only: list_all_iff)
  ultimately show ?thesis using run joined fails tally atomic complete by simp
qed

text \<open>
  C3. Counter convergence fails when two counter updates overlap. Two regions,
  counters at zero, nothing to list; both goroutines read \<^verbatim>\<open>Complete\<close> (line 146)
  before either writes it. PrintSecrets reaches line 89 with \<^verbatim>\<open>Pending\<close> and
  \<^verbatim>\<open>Executing\<close> at zero and \<^verbatim>\<open>Complete\<close> at one, not two.
\<close>

theorem complete_lost_update:
  "map_option (\<lambda>s. (mainpc s, Pending (counter s), Executing (counter s), Complete (counter s)))
     (exec quietApis (start (freshModule [''us-east-1'', ''us-west-2''])) lostUpdateSchedule)
   = Some (M_Joined, 0, 0, 1)"
  by code_simp




subsection \<open>Every run can be completed\<close>

lemma executeChecks_step_rank:
  "executeChecks_step api c r p = Some (a, p') \<Longrightarrow>
   rank p' \<le> 30 \<and> (weight (record_action a no_effects) = 0 \<longrightarrow> rank p' < rank p) \<and>
   weight (record_action a no_effects) \<le> 1"
  by (induction api c r p rule: executeChecks_step.induct)
     (auto simp: weight_def no_effects_def split: sum.splits if_splits)

lemma executeChecks_step_enabled:
  "p \<noteq> W_Exit \<Longrightarrow> \<exists>a p'. executeChecks_step api c r p = Some (a, p')"
  by (induction api c r p rule: executeChecks_step.induct) (auto split: sum.splits)

lemma steps_bound_step:
  assumes ex: "executeChecks_step api c r p = Some (a, p')" and def: "remaining api r p \<noteq> None"
  shows "remaining api r p' \<noteq> None" and "steps_bound api r p' < steps_bound api r p"
proof -
  from def obtain e where e: "remaining api r p = Some e" by auto
  from remaining_step [OF ex] e
  obtain e' where e': "remaining api r p' = Some e'"
    and split: "e = then_effects (record_action a no_effects) e'"
    by (cases "remaining api r p'") auto
  from e' show "remaining api r p' \<noteq> None" by simp
  from split have w: "weight e = weight (record_action a no_effects) + weight e'"
    by (simp add: weight_def then_effects_def)
  from executeChecks_step_rank [OF ex] w e e'
  show "steps_bound api r p' < steps_bound api r p"
    by (cases "weight (record_action a no_effects) = 0") (auto simp: steps_bound_def)
qed

text \<open>
  One step of a goroutine, followed by the receiver's append if the step was a
  send; the other goroutines stay where they are.
\<close>

lemma worker_progress:
  assumes i: "i < length (workers s)" and rs: "receiver s = R_Select"
    and ex: "executeChecks_step api (counter s) (region (workers s ! i)) (pc (workers s ! i)) = Some (a, p)"
  shows "\<exists>us s'. exec api s us = Some s' \<and> receiver s' = R_Select \<and> mainpc s' = mainpc s \<and>
           spinner s' = spinner s \<and> length (workers s') = length (workers s) \<and>
           pc (workers s' ! i) = p \<and> region (workers s' ! i) = region (workers s ! i) \<and>
           (\<forall>j. j \<noteq> i \<longrightarrow> workers s' ! j = workers s ! j) \<and>
           wg s' = wg s - (if a = WaitGroupDone then 1 else 0)"
proof (cases a)
  case (Send d)
  with i rs ex show ?thesis
    by (intro exI [of _ "[Worker i, ReceiverThread]"]) (simp add: worker_step_def Let_def)
next
  case Internal
  with i rs ex show ?thesis
    by (intro exI [of _ "[Worker i]"]) (simp add: worker_step_def Let_def)
next
  case (Write f v)
  with i rs ex show ?thesis
    by (intro exI [of _ "[Worker i]"]) (simp add: worker_step_def set_counter_def Let_def)
next
  case (Request tok)
  with i rs ex show ?thesis
    by (intro exI [of _ "[Worker i]"]) (simp add: worker_step_def Let_def)
next
  case (LogError err)
  with i rs ex show ?thesis
    by (intro exI [of _ "[Worker i]"]) (simp add: worker_step_def Let_def)
next
  case WaitGroupDone
  with i rs ex show ?thesis
    by (intro exI [of _ "[Worker i]"]) (simp add: worker_step_def Let_def)
qed

text \<open>A goroutine whose pagination ends can be run to its end.\<close>

lemma worker_finishes:
  assumes "i < length (workers s)" and "receiver s = R_Select"
    and "remaining api (region (workers s ! i)) (pc (workers s ! i)) \<noteq> None"
  shows "\<exists>us s'. exec api s us = Some s' \<and> receiver s' = R_Select \<and> mainpc s' = mainpc s \<and>
           spinner s' = spinner s \<and> length (workers s') = length (workers s) \<and>
           pc (workers s' ! i) = W_Exit \<and>
           (\<forall>j. j \<noteq> i \<longrightarrow> workers s' ! j = workers s ! j) \<and>
           wg s' = wg s - live (workers s ! i)"
  using assms
proof (induction "steps_bound api (region (workers s ! i)) (pc (workers s ! i))"
    arbitrary: s rule: less_induct)
  case less
  let ?w = "workers s ! i"
  show ?case
  proof (cases "pc ?w = W_Exit")
    case True
    then have "exec api s [] = Some s \<and> receiver s = R_Select \<and> mainpc s = mainpc s \<and>
           spinner s = spinner s \<and> length (workers s) = length (workers s) \<and>
           pc (workers s ! i) = W_Exit \<and> (\<forall>j. j \<noteq> i \<longrightarrow> workers s ! j = workers s ! j) \<and>
           wg s = wg s - live (workers s ! i)"
      using less.prems(2) by (simp add: live_def)
    then show ?thesis by blast
  next
    case False
    from executeChecks_step_enabled [OF False]
    obtain a p where ex: "executeChecks_step api (counter s) (region ?w) (pc ?w) = Some (a, p)"
      by blast
    from worker_progress [OF less.prems(1,2) ex]
    obtain us s1 where run1: "exec api s us = Some s1" and r1: "receiver s1 = R_Select"
      and m1: "mainpc s1 = mainpc s" and sp1: "spinner s1 = spinner s"
      and l1: "length (workers s1) = length (workers s)"
      and p1: "pc (workers s1 ! i) = p" and g1: "region (workers s1 ! i) = region ?w"
      and f1: "\<forall>j. j \<noteq> i \<longrightarrow> workers s1 ! j = workers s ! j"
      and w1: "wg s1 = wg s - (if a = WaitGroupDone then 1 else 0)"
      by blast
    from executeChecks_step_exit [OF ex] have ae: "p = W_Exit \<longleftrightarrow> a = WaitGroupDone" by simp
    from steps_bound_step [OF ex less.prems(3)] p1 g1
    have d1: "remaining api (region (workers s1 ! i)) (pc (workers s1 ! i)) \<noteq> None"
      and b1: "steps_bound api (region (workers s1 ! i)) (pc (workers s1 ! i))
                 < steps_bound api (region ?w) (pc ?w)"
      by simp_all
    from less.prems(1) l1 have i1: "i < length (workers s1)" by simp
    from less.hyps [OF b1 i1 r1 d1]
    obtain vs s2 where run2: "exec api s1 vs = Some s2" and r2: "receiver s2 = R_Select"
      and m2: "mainpc s2 = mainpc s1" and sp2: "spinner s2 = spinner s1"
      and l2: "length (workers s2) = length (workers s1)"
      and p2: "pc (workers s2 ! i) = W_Exit"
      and f2: "\<forall>j. j \<noteq> i \<longrightarrow> workers s2 ! j = workers s1 ! j"
      and w2: "wg s2 = wg s1 - live (workers s1 ! i)"
      by blast
    from run1 run2 have "exec api s (us @ vs) = Some s2" by (simp add: exec_append)
    moreover from False ae p1 w1 w2 have "wg s2 = wg s - live ?w" by (auto simp: live_def)
    ultimately show ?thesis using r2 m1 m2 sp1 sp2 l1 l2 p2 f1 f2 by auto
  qed
qed

lemma main_finishes:
  assumes "mainpc s = M_Range rs" and "receiver s = R_Select" and "spinner s = S_Spinning"
    and "wg s = 0" and "\<forall>r\<in>set rs. executeChecks_effects api r \<noteq> None"
  shows "\<exists>us s'. exec api s us = Some s' \<and> mainpc s' = M_Joined"
  using assms
proof (induction rs arbitrary: s)
  case Nil
  then have "\<exists>s'. exec api s (replicate 6 MainThread) = Some s' \<and> mainpc s' = M_Joined"
    by (simp add: numeral_eq_Suc)
  then show ?case by blast
next
  case (Cons r rs)
  let ?i = "length (workers s)"
  from Cons.prems(1-4)
  obtain s1 where run1: "exec api s (replicate 4 MainThread) = Some s1"
    and m1: "mainpc s1 = M_Range rs" and r1: "receiver s1 = R_Select"
    and sp1: "spinner s1 = S_Spinning" and w1: "wg s1 = 1"
    and ws1: "workers s1 = workers s @
                [\<lparr>region = r, pc = W_TotalLoad, history = no_effects, stores = [],
                  listed = [], described = []\<rparr>]"
    by (simp add: numeral_eq_Suc set_counter_def)
  from ws1 have i1: "?i < length (workers s1)"
    and wi: "workers s1 ! ?i = \<lparr>region = r, pc = W_TotalLoad, history = no_effects, stores = [],
                               listed = [], described = []\<rparr>"
    by simp_all
  from Cons.prems(5) wi
  have d1: "remaining api (region (workers s1 ! ?i)) (pc (workers s1 ! ?i)) \<noteq> None"
    and n1: "live (workers s1 ! ?i) = 1"
    by (simp_all add: live_def)
  from worker_finishes [OF i1 r1 d1] n1
  obtain us s2 where run2: "exec api s1 us = Some s2" and r2: "receiver s2 = R_Select"
    and m2: "mainpc s2 = mainpc s1" and sp2: "spinner s2 = spinner s1"
    and w2: "wg s2 = wg s1 - 1"
    by auto
  from Cons.prems(5) have rest: "\<forall>r\<in>set rs. executeChecks_effects api r \<noteq> None" by simp
  from m1 m2 sp1 sp2 w1 w2
  have "mainpc s2 = M_Range rs" "spinner s2 = S_Spinning" "wg s2 = 0" by simp_all
  from Cons.IH [OF this(1) r2 this(2,3) rest]
  obtain vs s3 where run3: "exec api s2 vs = Some s3" and j: "mainpc s3 = M_Joined" by blast
  from run1 run2 run3 have "exec api s (replicate 4 MainThread @ us @ vs) = Some s3"
    by (simp add: exec_append)
  with j show ?case by blast
qed

text \<open>\<^verbatim>\<open>m.Secrets\<close> only ever grows at its end.\<close>

lemma append_only_step:
  assumes "step api s t = Some s'"
  shows "\<exists>xs. Secrets (module s') = Secrets (module s) @ xs"
proof (cases t)
  case MainThread
  with assms show ?thesis
    by (auto simp: set_counter_def split: mpc.splits list.splits if_splits)
next
  case (Worker i)
  with assms have "worker_step api i s = Some s'" by simp
  then obtain a p s0 where pf: "perform a s = Some s0"
    and s': "s' = s0\<lparr>workers := (workers s)[i := (workers s ! i)\<lparr>pc := p,
            history := record_action a (history (workers s ! i)),
            stores := record_store a (stores (workers s ! i)),
            listed := listed (workers s ! i) @ listedAt api (region (workers s ! i)) (pc (workers s ! i)),
            described := described (workers s ! i)
              @ describedAt api (region (workers s ! i)) (pc (workers s ! i))\<rparr>]\<rparr>"
    by (rule worker_stepE)
  from pf have "Secrets (module s0) = Secrets (module s)"
    by (cases a) (auto simp: set_counter_def split: if_splits)
  with s' show ?thesis by simp
next
  case ReceiverThread
  with assms show ?thesis by (auto split: rpc.splits)
qed

lemma append_only_exec:
  "exec api s ts = Some s' \<Longrightarrow> \<exists>xs. Secrets (module s') = Secrets (module s) @ xs"
proof (induction ts arbitrary: s)
  case Nil
  then show ?case by simp
next
  case (Cons t ts)
  from Cons.prems obtain s1 where s1: "step api s t = Some s1" and rest: "exec api s1 ts = Some s'"
    by (auto split: option.splits)
  from append_only_step [OF s1] Cons.IH [OF rest] show ?case by auto
qed

lemma no_regions_no_secrets:
  assumes run: "exec api (start m) ts = Some s" and j: "mainpc s = M_Joined"
    and none: "AWSRegions m = []"
  shows "Secrets (module s) = Secrets m"
proof -
  from j have st: "stopped s" by (simp add: stopped_def)
  note f = stopped_facts [OF run st]
  from f(2) none have "workers s = []" by simp
  with f(3) have eq: "mset (Secrets (module s)) = mset (Secrets m)" by (simp add: submitted_def)
  from append_only_exec [OF run] obtain xs where xs: "Secrets (module s) = Secrets m @ xs"
    by (auto simp: start_def)
  with eq have "xs = []" by simp
  with xs show ?thesis by simp
qed

lemma spinner_inv_step:
  assumes "spinner_inv s" and "step api s t = Some s'"
  shows "spinner_inv s'"
proof (cases t)
  case MainThread
  with assms show ?thesis
    by (auto simp: spinner_inv_def set_counter_def split: mpc.splits list.splits if_splits)
next
  case (Worker i)
  with assms have "worker_step api i s = Some s'" by simp
  then obtain a p s0 where pf: "perform a s = Some s0"
    and s': "s' = s0\<lparr>workers := (workers s)[i := (workers s ! i)\<lparr>pc := p,
            history := record_action a (history (workers s ! i)),
            stores := record_store a (stores (workers s ! i)),
            listed := listed (workers s ! i) @ listedAt api (region (workers s ! i)) (pc (workers s ! i)),
            described := described (workers s ! i)
              @ describedAt api (region (workers s ! i)) (pc (workers s ! i))\<rparr>]\<rparr>"
    by (rule worker_stepE)
  from perform_frame [OF pf] s' assms(1) show ?thesis by (simp add: spinner_inv_def)
next
  case ReceiverThread
  with assms show ?thesis by (auto simp: spinner_inv_def split: rpc.splits)
qed

lemma spinner_inv_exec:
  assumes "exec api (start m) ts = Some s"
  shows "spinner_inv s"
proof (rule exec_invariant [where P = spinner_inv, OF assms])
  show "spinner_inv (start m)" by (simp add: spinner_inv_def start_def)
qed (rule spinner_inv_step)

text \<open>All goroutines started so far can be run to their ends, one after the other.\<close>

lemma workers_finish:
  assumes "receiver s = R_Select"
    and "\<forall>j<length (workers s). remaining api (region (workers s ! j)) (pc (workers s ! j)) \<noteq> None"
    and "n \<le> length (workers s)"
  shows "\<exists>us s'. exec api s us = Some s' \<and> receiver s' = R_Select \<and> mainpc s' = mainpc s \<and>
           length (workers s') = length (workers s) \<and>
           (\<forall>j<n. pc (workers s' ! j) = W_Exit) \<and>
           (\<forall>j\<ge>n. workers s' ! j = workers s ! j)"
  using assms(3)
proof (induction n)
  case 0
  have "exec api s [] = Some s" by simp
  with assms(1) show ?case by blast
next
  case (Suc n)
  then obtain us s1 where run1: "exec api s us = Some s1" and r1: "receiver s1 = R_Select"
    and m1: "mainpc s1 = mainpc s" and l1: "length (workers s1) = length (workers s)"
    and e1: "\<forall>j<n. pc (workers s1 ! j) = W_Exit"
    and f1: "\<forall>j\<ge>n. workers s1 ! j = workers s ! j"
    by auto
  from Suc.prems l1 have n1: "n < length (workers s1)" by simp
  from f1 assms(2) Suc.prems
  have d1: "remaining api (region (workers s1 ! n)) (pc (workers s1 ! n)) \<noteq> None" by simp
  from worker_finishes [OF n1 r1 d1]
  obtain vs s2 where run2: "exec api s1 vs = Some s2" and r2: "receiver s2 = R_Select"
    and m2: "mainpc s2 = mainpc s1" and l2: "length (workers s2) = length (workers s1)"
    and p2: "pc (workers s2 ! n) = W_Exit"
    and f2: "\<forall>j. j \<noteq> n \<longrightarrow> workers s2 ! j = workers s1 ! j"
    by blast
  from run1 run2 have "exec api s (us @ vs) = Some s2" by (simp add: exec_append)
  moreover have "\<forall>j<Suc n. pc (workers s2 ! j) = W_Exit"
    using e1 p2 f2 by (auto simp: less_Suc_eq)
  moreover have "\<forall>j\<ge>Suc n. workers s2 ! j = workers s ! j"
    using f1 f2 by auto
  ultimately show ?case using r2 m1 m2 l1 l2 by auto
qed

lemma on_course_defined:
  "on_course api w \<Longrightarrow> executeChecks_effects api (region w) \<noteq> None \<Longrightarrow>
   remaining api (region w) (pc w) \<noteq> None"
  by (cases "remaining api (region w) (pc w)") (auto simp: on_course_def)

text \<open>Main at the head of its loop, every goroutine started so far at its end.\<close>

lemma launch_finishes:
  assumes "mainpc s = M_PendingLoad r rs \<or> (\<exists>v. mainpc s = M_PendingStore r rs v) \<or>
           mainpc s = M_Go r rs"
    and "receiver s = R_Select" and "spinner s = S_Spinning" and "wg s = 1"
    and "\<forall>r'\<in>set (r # rs). executeChecks_effects api r' \<noteq> None"
  shows "\<exists>us s'. exec api s us = Some s' \<and> mainpc s' = M_Joined"
proof -
  let ?w = "\<lparr>region = r, pc = W_TotalLoad, history = no_effects, stores = [],
             listed = [], described = []\<rparr>"
  from assms(1-4)
  have "\<exists>us s1. exec api s us = Some s1 \<and> mainpc s1 = M_Range rs \<and> receiver s1 = R_Select \<and>
          spinner s1 = S_Spinning \<and> wg s1 = 1 \<and> workers s1 = workers s @ [?w]"
  proof (elim disjE exE)
    assume "mainpc s = M_PendingLoad r rs"
    with assms(2-4) show ?thesis
      by (intro exI [of _ "replicate 3 MainThread"]) (simp add: numeral_eq_Suc set_counter_def)
  next
    fix v assume "mainpc s = M_PendingStore r rs v"
    with assms(2-4) show ?thesis
      by (intro exI [of _ "replicate 2 MainThread"]) (simp add: numeral_eq_Suc set_counter_def)
  next
    assume "mainpc s = M_Go r rs"
    with assms(2-4) show ?thesis
      by (intro exI [of _ "[MainThread]"]) simp
  qed
  then obtain us s1 where run1: "exec api s us = Some s1" and m1: "mainpc s1 = M_Range rs"
    and r1: "receiver s1 = R_Select" and sp1: "spinner s1 = S_Spinning" and w1: "wg s1 = 1"
    and ws1: "workers s1 = workers s @ [?w]"
    by blast
  let ?i = "length (workers s)"
  from ws1 have i1: "?i < length (workers s1)" and wi: "workers s1 ! ?i = ?w" by simp_all
  from assms(5) wi
  have d1: "remaining api (region (workers s1 ! ?i)) (pc (workers s1 ! ?i)) \<noteq> None"
    and n1: "live (workers s1 ! ?i) = 1"
    by (simp_all add: live_def)
  from worker_finishes [OF i1 r1 d1] n1
  obtain vs s2 where run2: "exec api s1 vs = Some s2" and r2: "receiver s2 = R_Select"
    and m2: "mainpc s2 = mainpc s1" and sp2: "spinner s2 = spinner s1"
    and w2: "wg s2 = wg s1 - 1"
    by auto
  from assms(5) have rest: "\<forall>r\<in>set rs. executeChecks_effects api r \<noteq> None" by simp
  from m1 m2 sp1 sp2 w1 w2
  have "mainpc s2 = M_Range rs" "spinner s2 = S_Spinning" "wg s2 = 0" by simp_all
  from main_finishes [OF this(1) r2 this(2,3) rest]
  obtain xs s3 where run3: "exec api s2 xs = Some s3" and j: "mainpc s3 = M_Joined" by blast
  from run1 run2 run3 have "exec api s (us @ vs @ xs) = Some s3" by (simp add: exec_append)
  with j show ?thesis by blast
qed

lemma shutdown_finishes:
  assumes "past_wait (mainpc s) \<or> (mainpc s = M_Wait \<and> wg s = 0)"
    and "structure_inv m s" and "spinner_inv s" and "held (receiver s) = {#}"
  shows "\<exists>us s'. exec api s us = Some s' \<and> mainpc s' = M_Joined"
proof (cases "mainpc s")
  case M_Wait
  with assms have "wg s = 0" "spinner s = S_Spinning" "receiver s = R_Select"
    by (auto simp: structure_inv_def spinner_inv_def elim: held.elims)
  with M_Wait show ?thesis
    by (intro exI [of _ "replicate 5 MainThread"]) (simp add: numeral_eq_Suc)
next
  case M_SpinnerStop
  with assms have "spinner s = S_Spinning" "receiver s = R_Select"
    by (auto simp: structure_inv_def spinner_inv_def elim: held.elims)
  with M_SpinnerStop show ?thesis
    by (intro exI [of _ "replicate 4 MainThread"]) (simp add: numeral_eq_Suc)
next
  case M_SpinnerAck
  with assms have "spinner s = S_Ack" "receiver s = R_Select"
    by (auto simp: structure_inv_def spinner_inv_def elim: held.elims)
  with M_SpinnerAck show ?thesis
    by (intro exI [of _ "replicate 3 MainThread"]) (simp add: numeral_eq_Suc)
next
  case M_ReceiverStop
  with assms have "receiver s = R_Select"
    by (auto simp: structure_inv_def elim: held.elims)
  with M_ReceiverStop show ?thesis
    by (intro exI [of _ "replicate 2 MainThread"]) (simp add: numeral_eq_Suc)
next
  case M_ReceiverAck
  with assms have "receiver s = R_Ack" by (simp add: structure_inv_def)
  with M_ReceiverAck show ?thesis
    by (intro exI [of _ "[MainThread]"]) simp
next
  case M_Joined
  then have "exec api s [] = Some s \<and> mainpc s = M_Joined" by simp
  then show ?thesis by blast
qed (use assms(1) in simp_all)

lemma live_all_zero: "\<forall>w\<in>set ws. live w = 0 \<Longrightarrow> sum_list (map live ws) = 0"
  by (induction ws) simp_all

text \<open>From wherever a run has got to, it can be carried through to line 89.\<close>

lemma run_can_finish:
  assumes run: "exec api (start m) ts = Some s"
    and fin: "\<forall>r\<in>set (AWSRegions m). executeChecks_effects api r \<noteq> None"
  shows "\<exists>us s'. exec api s us = Some s' \<and> mainpc s' = M_Joined"
proof -
  \<comment> \<open>the receiver appends what it holds\<close>
  have "\<exists>us s0. exec api s us = Some s0 \<and> held (receiver s0) = {#}"
  proof (cases "receiver s")
    case (R_Append d)
    then show ?thesis by (intro exI [of _ "[ReceiverThread]"]) simp
  next
    case R_Select
    then have "exec api s [] = Some s \<and> held (receiver s) = {#}" by simp
    then show ?thesis by blast
  next
    case R_Ack
    then have "exec api s [] = Some s \<and> held (receiver s) = {#}" by simp
    then show ?thesis by blast
  next
    case R_Closed
    then have "exec api s [] = Some s \<and> held (receiver s) = {#}" by simp
    then show ?thesis by blast
  qed
  then obtain us0 s0 where run0: "exec api s us0 = Some s0" and h0: "held (receiver s0) = {#}"
    by blast
  from run run0 have reach0: "exec api (start m) (ts @ us0) = Some s0" by (simp add: exec_append)
  note si0 = structure_inv_exec [OF reach0] and sp0 = spinner_inv_exec [OF reach0]
  have "\<exists>vs s'. exec api s0 vs = Some s' \<and> mainpc s' = M_Joined"
  proof (cases "receiver s0 = R_Select")
    case False
    with h0 si0 have "past_wait (mainpc s0)"
      by (cases "receiver s0") (auto simp: structure_inv_def)
    with si0 sp0 h0 show ?thesis by (intro shutdown_finishes) auto
  next
    case True
    \<comment> \<open>every goroutine started so far runs to its end\<close>
    from si0 have eq0: "map region (workers s0) @ todo (mainpc s0) = AWSRegions m"
      by (simp add: structure_inv_def)
    have regs: "\<forall>w\<in>set (workers s0). region w \<in> set (AWSRegions m)"
    proof
      fix w assume "w \<in> set (workers s0)"
      then have "region w \<in> set (map region (workers s0) @ todo (mainpc s0))" by simp
      with eq0 show "region w \<in> set (AWSRegions m)" by simp
    qed
    have "\<forall>j<length (workers s0).
            remaining api (region (workers s0 ! j)) (pc (workers s0 ! j)) \<noteq> None"
    proof (intro allI impI)
      fix j assume "j < length (workers s0)"
      then have w: "workers s0 ! j \<in> set (workers s0)" by simp
      with workers_inv_exec [OF reach0] have "on_course api (workers s0 ! j)"
        by (simp add: workers_inv_def worker_inv_def)
      moreover from w regs fin have "executeChecks_effects api (region (workers s0 ! j)) \<noteq> None"
        by blast
      ultimately show "remaining api (region (workers s0 ! j)) (pc (workers s0 ! j)) \<noteq> None"
        by (rule on_course_defined)
    qed
    from workers_finish [OF True this order_refl]
    obtain us1 s1 where run1: "exec api s0 us1 = Some s1" and r1: "receiver s1 = R_Select"
      and m1: "mainpc s1 = mainpc s0"
      and e1: "\<forall>j<length (workers s0). pc (workers s1 ! j) = W_Exit"
      and l1: "length (workers s1) = length (workers s0)"
      by blast
    from run run0 run1 have reach1: "exec api (start m) ((ts @ us0) @ us1) = Some s1"
      by (simp add: exec_append)
    note si1 = structure_inv_exec [OF reach1] and sp1 = spinner_inv_exec [OF reach1]
    from e1 l1 have "\<forall>w\<in>set (workers s1). live w = 0"
      by (auto simp: live_def in_set_conv_nth)
    then have "sum_list (map live (workers s1)) = 0"
      by (rule live_all_zero)
    with si1 have wg1: "wg s1 = launching (mainpc s1)" by (simp add: structure_inv_def)
    from si1 have eq1: "map region (workers s1) @ todo (mainpc s1) = AWSRegions m"
      by (simp add: structure_inv_def)
    have todo1: "\<forall>r\<in>set (todo (mainpc s1)). executeChecks_effects api r \<noteq> None"
    proof
      fix r assume "r \<in> set (todo (mainpc s1))"
      then have "r \<in> set (map region (workers s1) @ todo (mainpc s1))" by simp
      with eq1 fin show "executeChecks_effects api r \<noteq> None" by simp
    qed
    from r1 have h1: "held (receiver s1) = {#}" by simp
    have "\<exists>ws s'. exec api s1 ws = Some s' \<and> mainpc s' = M_Joined"
    proof (cases "mainpc s1")
      case (M_Range rs)
      with wg1 sp1 todo1 r1 show ?thesis
        by (intro main_finishes [where rs = rs]) (auto simp: spinner_inv_def)
    next
      case (M_PendingLoad r rs)
      with wg1 sp1 todo1 r1 show ?thesis
        by (intro launch_finishes [where r = r and rs = rs]) (auto simp: spinner_inv_def)
    next
      case (M_PendingStore r rs v)
      with wg1 sp1 todo1 r1 show ?thesis
        by (intro launch_finishes [where r = r and rs = rs]) (auto simp: spinner_inv_def)
    next
      case (M_Go r rs)
      with wg1 sp1 todo1 r1 show ?thesis
        by (intro launch_finishes [where r = r and rs = rs]) (auto simp: spinner_inv_def)
    next
      case M_Wait
      with wg1 si1 sp1 h1 show ?thesis by (intro shutdown_finishes) auto
    next
      case M_SpinnerStop
      with si1 sp1 h1 show ?thesis by (intro shutdown_finishes) auto
    next
      case M_SpinnerAck
      with si1 sp1 h1 show ?thesis by (intro shutdown_finishes) auto
    next
      case M_ReceiverStop
      with si1 sp1 h1 show ?thesis by (intro shutdown_finishes) auto
    next
      case M_ReceiverAck
      with si1 sp1 h1 show ?thesis by (intro shutdown_finishes) auto
    next
      case M_Joined
      with si1 sp1 h1 show ?thesis by (intro shutdown_finishes) auto
    qed
    then obtain ws s' where "exec api s1 ws = Some s'" "mainpc s' = M_Joined" by blast
    with run1 have "exec api s0 (us1 @ ws) = Some s' \<and> mainpc s' = M_Joined"
      by (simp add: exec_append)
    then show ?thesis by blast
  qed
  then obtain vs s' where "exec api s0 vs = Some s'" "mainpc s' = M_Joined" by blast
  with run0 have "exec api s (us0 @ vs) = Some s' \<and> mainpc s' = M_Joined"
    by (simp add: exec_append)
  then show ?thesis by blast
qed

text \<open>
  C8. No error aborts the run. Whatever requests fail and whether or not the
  two file-system calls of \<^verbatim>\<open>writeLoot\<close> fail, from wherever a run has got
  to it can be carried through to the last line of PrintSecrets, provided
  only that the pagination of every source of every region ends; with no
  regions the steps of main alone do it, and then \<^verbatim>\<open>m.Secrets\<close> is what it was
  at the call (empty for a module that starts empty). Whenever PrintSecrets returns, the last thing it prints is the
  report: the number of rows of the table followed by ``secrets found.'' if
  there is a row, and ``No secrets found, ...'' if there is none, the rows
  being those the module held at the call and one per Secret collected.
\<close>

theorem run_never_aborted:
  "((\<forall>r\<in>set (AWSRegions m). executeChecks_effects api r \<noteq> None) \<and>
    exec api (start (fst (PrintSecrets_begin e outputDirectory verbosity m))) ts \<noteq> None \<longrightarrow>
      (\<exists>us. PrintSecrets e api (ts @ us) outputFormat outputDirectory verbosity m \<noteq> None)) \<and>
   (AWSRegions m = [] \<longrightarrow>
      PrintSecrets e api (replicate 6 MainThread) outputFormat outputDirectory verbosity m \<noteq> None) \<and>
   (PrintSecrets e api schedule outputFormat outputDirectory verbosity m = Some (m', shown, file) \<longrightarrow>
      (AWSRegions m = [] \<longrightarrow> Secrets m' = Secrets m) \<and>
      Body (outputData m') = Body (outputData m) @ map tableRow (Secrets m') \<and>
      shown \<noteq> [] \<and>
      last shown =
        (if 0 < length (Body (outputData m'))
         then ''['' @ cyan e ''secrets'' @ ''] '' @ Itoa (length (Body (outputData m')))
                @ '' secrets found.\<newline>''
         else ''['' @ cyan e ''secrets''
                @ ''] No secrets found, skipping the creation of an output file.\<newline>''))"
proof -
  obtain m1 shown1 where b: "PrintSecrets_begin e outputDirectory verbosity m = (m1, shown1)"
    by (cases "PrintSecrets_begin e outputDirectory verbosity m") auto
  note b1 = PrintSecrets_begin_result [OF b]
  have live: "\<exists>us. PrintSecrets e api (ts @ us) outputFormat outputDirectory verbosity m \<noteq> None"
    if "\<forall>r\<in>set (AWSRegions m). executeChecks_effects api r \<noteq> None"
      and "exec api (start (fst (PrintSecrets_begin e outputDirectory verbosity m))) ts \<noteq> None"
  proof -
    from that(1) b1 have fin: "\<forall>r\<in>set (AWSRegions m1). executeChecks_effects api r \<noteq> None"
      by simp
    from that(2) b obtain s where run: "exec api (start m1) ts = Some s" by auto
    from run_can_finish [OF run fin] obtain us s' where "exec api s us = Some s'"
      "mainpc s' = M_Joined" by blast
    with run have "exec api (start m1) (ts @ us) = Some s' \<and> mainpc s' = M_Joined"
      by (simp add: exec_append)
    with b have "PrintSecrets e api (ts @ us) outputFormat outputDirectory verbosity m \<noteq> None"
      by (auto simp: PrintSecrets_def split: prod.splits)
    then show ?thesis by blast
  qed
  have idle: "PrintSecrets e api (replicate 6 MainThread) outputFormat outputDirectory verbosity m
                \<noteq> None"
    if "AWSRegions m = []"
  proof -
    from that b1 have "AWSRegions m1 = []" by simp
    then have "\<exists>s. exec api (start m1) (replicate 6 MainThread) = Some s \<and> mainpc s = M_Joined"
      by (simp add: start_def numeral_eq_Suc)
    with b show ?thesis by (auto simp: PrintSecrets_def split: prod.splits)
  qed
  have report: "(AWSRegions m = [] \<longrightarrow> Secrets m' = Secrets m) \<and>
      Body (outputData m') = Body (outputData m) @ map tableRow (Secrets m') \<and>
      shown \<noteq> [] \<and>
      last shown =
        (if 0 < length (Body (outputData m'))
         then ''['' @ cyan e ''secrets'' @ ''] '' @ Itoa (length (Body (outputData m')))
                @ '' secrets found.\<newline>''
         else ''['' @ cyan e ''secrets''
                @ ''] No secrets found, skipping the creation of an output file.\<newline>'')"
    if "PrintSecrets e api schedule outputFormat outputDirectory verbosity m = Some (m', shown, file)"
  proof -
    from that b obtain s shown2 where
      run: "exec api (start m1) schedule = Some s" and j: "mainpc s = M_Joined"
      and fin: "PrintSecrets_end e outputFormat outputDirectory verbosity (module s) = (m', shown2, file)"
      and sh: "shown = shown1 @ shown2"
      by (auto elim!: PrintSecrets_SomeE)
    note u = untouched_exec [OF run]
    note r = PrintSecrets_end_result [OF fin]
    from u b1 have od: "Body (outputData (module s)) = Body (outputData m)"
      "CallingModule (outputData (module s)) = ''secrets''"
      by (simp_all add: untouched_def)
    have "Secrets m' = Secrets m" if "AWSRegions m = []"
      using no_regions_no_secrets [OF run j] that b1 r(1) by simp
    moreover from r(3) r(1) od have "Body (outputData m') = Body (outputData m) @ map tableRow (Secrets m')"
      by simp
    moreover from r(6) sh have "shown \<noteq> []" by simp
    moreover from r(6,7) sh od have "last shown =
        (if 0 < length (Body (outputData m'))
         then ''['' @ cyan e ''secrets'' @ ''] '' @ Itoa (length (Body (outputData m')))
                @ '' secrets found.\<newline>''
         else ''['' @ cyan e ''secrets''
                @ ''] No secrets found, skipping the creation of an output file.\<newline>'')"
      by simp
    ultimately show ?thesis by blast
  qed
  from live idle report show ?thesis by blast
qed

theorem run_never_aborted_witness:
  "list_all (\<lambda>r. executeChecks_effects scenarioApis r \<noteq> None) (AWSRegions scenarioModule) \<and>
   exec scenarioApis
     (start (fst (PrintSecrets_begin failingEnv ''out'' 0 scenarioModule))) (take 20 scenarioSchedule)
     \<noteq> None \<and>
   (\<exists>us. PrintSecrets failingEnv scenarioApis (take 20 scenarioSchedule @ us) ''table'' ''out'' 0
           scenarioModule \<noteq> None) \<and>
   (case PrintSecrets plainEnv quietApis (replicate 6 MainThread) ''table'' ''out'' 0 (freshModule []) of
      None \<Rightarrow> False
    | Some (m', shown, file) \<Rightarrow>
        AWSRegions (freshModule []) = [] \<and> Secrets m' = [] \<and>
        last shown = ''[secrets] No secrets found, skipping the creation of an output file.\<newline>'') \<and>
   (case PrintSecrets failingEnv scenarioApis scenarioSchedule ''table'' ''out'' 0 scenarioModule of
      None \<Rightarrow> False
    | Some (m', shown, file) \<Rightarrow>
        MkdirAll failingEnv ''/out'' \<noteq> None \<and>
        last shown = ''[secrets] 4 secrets found.\<newline>'')"
proof -
  note t0 = run_never_aborted [of "freshModule []" quietApis plainEnv "''out''" 0 "[]" "''table''"]
  have none: "AWSRegions (freshModule []) = []" by (simp add: freshModule_def)
  from t0 none
  have "PrintSecrets plainEnv quietApis (replicate 6 MainThread) ''table'' ''out'' 0 (freshModule [])
          \<noteq> None"
    by blast
  then obtain m0 shown0 file0 where
    r0: "PrintSecrets plainEnv quietApis (replicate 6 MainThread) ''table'' ''out'' 0 (freshModule [])
           = Some (m0, shown0, file0)"
    by auto
  from t0 [of "replicate 6 MainThread" m0 shown0 file0] r0 none
  have s0: "Secrets m0 = Secrets (freshModule [])"
    and b0: "Body (outputData m0) = Body (outputData (freshModule [])) @ map tableRow (Secrets m0)"
    and l0: "last shown0 =
        (if 0 < length (Body (outputData m0))
         then ''['' @ cyan plainEnv ''secrets'' @ ''] '' @ Itoa (length (Body (outputData m0)))
                @ '' secrets found.\<newline>''
         else ''['' @ cyan plainEnv ''secrets''
                @ ''] No secrets found, skipping the creation of an output file.\<newline>'')"
    by blast+
  from s0 b0 have e0: "Secrets m0 = []" "Body (outputData m0) = []"
    by (simp_all add: freshModule_def)
  with l0 have first: "last shown0 =
      ''[secrets] No secrets found, skipping the creation of an output file.\<newline>''"
    by (simp add: plainEnv_def)
  have "map_option (\<lambda>(m', shown, file). length (Body (outputData m')))
          (PrintSecrets failingEnv scenarioApis scenarioSchedule ''table'' ''out'' 0 scenarioModule)
        = Some 4"
    by code_simp
  then obtain m1 shown1 file1 where
    r1: "PrintSecrets failingEnv scenarioApis scenarioSchedule ''table'' ''out'' 0 scenarioModule
           = Some (m1, shown1, file1)"
    and n1: "length (Body (outputData m1)) = 4"
    by auto
  from run_never_aborted [of scenarioModule scenarioApis failingEnv "''out''" 0 "[]" "''table''"
      scenarioSchedule m1 shown1 file1] r1
  have "last shown1 =
        (if 0 < length (Body (outputData m1))
         then ''['' @ cyan failingEnv ''secrets'' @ ''] '' @ Itoa (length (Body (outputData m1)))
                @ '' secrets found.\<newline>''
         else ''['' @ cyan failingEnv ''secrets''
                @ ''] No secrets found, skipping the creation of an output file.\<newline>'')"
    by blast
  moreover have "Itoa 4 = ''4''" by code_simp
  ultimately have second: "last shown1 = ''[secrets] 4 secrets found.\<newline>''"
    using n1 by (simp add: failingEnv_def)
  have "MkdirAll failingEnv ''/out'' \<noteq> None" by (simp add: failingEnv_def)
  moreover
  have ends: "list_all (\<lambda>r. executeChecks_effects scenarioApis r \<noteq> None) (AWSRegions scenarioModule)"
    by (simp add: scenarioModule_def freshModule_def executeChecks_effects_def
        getSecretsManagerSecretsPerRegion_def getSSMParametersPerRegion_def scenarioApis_def
        listSecretsFrom_Inr describeParametersFrom_Inl describeParametersFrom_Inr)
  moreover
  have part: "exec scenarioApis
     (start (fst (PrintSecrets_begin failingEnv ''out'' 0 scenarioModule))) (take 20 scenarioSchedule)
     \<noteq> None"
    by code_simp
  moreover
  from run_never_aborted [of scenarioModule scenarioApis failingEnv "''out''" 0
      "take 20 scenarioSchedule" "''table''"] ends part
  have "\<exists>us. PrintSecrets failingEnv scenarioApis (take 20 scenarioSchedule @ us) ''table'' ''out'' 0
           scenarioModule \<noteq> None"
    by (simp add: list_all_iff)
  ultimately show ?thesis using r0 r1 none e0 first second by simp
qed

end
